theory Spec2Isabelle
  imports Main "HOL-Library.Multiset"
begin

section \<open>Data model\<close>

text \<open>
  The program under study is the Canvas assignment tracker
  (\<^verbatim>\<open>lessAIcodeGUIbetter.py\<close>): it resolves the caller's identity, lists the active
  courses, fetches every course's assignments page by page, and groups the upcoming ones
  by weekday.

  JSON values as the decoded responses hold them. The fields the program reads
  (\<^verbatim>\<open>id\<close>, \<^verbatim>\<open>name\<close>, \<^verbatim>\<open>due_at\<close>) are scalars; \<open>JNull\<close> is Python's \<^verbatim>\<open>None\<close>.
  A JSON object is a Python dict, kept as an association list read with \<open>map_of\<close>.
\<close>

datatype jval = JNull | JBool bool | JInt int | JStr string

type_synonym jobj = "(string \<times> jval) list"

text \<open>The exceptions the run can meet, and the early return on an empty token.\<close>

datatype error =
  NoToken | HTTPError | KeyError | AttributeError | TypeError | ValueError | OverflowError

text \<open>
  One call of \<^verbatim>\<open>requests.get(url, headers=headers, params=params)\<close> and what comes back.
  \<open>status_ok\<close> is False where \<^verbatim>\<open>raise_for_status()\<close> raises, \<open>json\<close> is the decoded
  body, \<open>links_next\<close> is \<^verbatim>\<open>r.links["next"]["url"]\<close> when \<^verbatim>\<open>"next" in r.links\<close>.
\<close>

record request =
  url :: string
  headers :: "(string \<times> string) list"
  params :: "(string \<times> string) list option"

record 'a response =
  status_ok :: bool
  json :: 'a
  links_next :: "string option"

text \<open>
  What the run does to the outside, in order: the requests it sends, the values it gives
  the progress bar (\<^verbatim>\<open>progress_bar["maximum"]\<close>, \<^verbatim>\<open>progress_bar["value"] = idx\<close>), and
  its readings of the system clock (\<^verbatim>\<open>datetime.now\<close>).
\<close>

datatype event = Request request | ProgressMaximum nat | ProgressValue nat | ClockRead

section \<open>Helper functions\<close>

definition BASE_URL :: string where
  "BASE_URL = ''https://canvas.sfu.ca/api/v1''"

text \<open>
  \<^verbatim>\<open>get_all_pages(url, headers, params=None)\<close>. The \<^verbatim>\<open>while url:\<close> loop stops on
  \<^verbatim>\<open>None\<close> and on the empty string, and runs for as long as the server keeps handing out
  next links: a run that never ends is the value \<open>None\<close>. A raised \<^verbatim>\<open>HTTPError\<close> loses
  the accumulated results; the requests already sent stay in the trace.
\<close>

partial_function (option) get_all_pages_loop ::
  "(request \<Rightarrow> jobj list response) \<Rightarrow> (string \<times> string) list \<Rightarrow> string option \<Rightarrow>
   (string \<times> string) list option \<Rightarrow> jobj list \<Rightarrow> event list \<Rightarrow>
   ((error + jobj list) \<times> event list) option"
where
  "get_all_pages_loop get hdrs u ps results tr =
     (case u of
        None \<Rightarrow> Some (Inr results, tr)
      | Some a \<Rightarrow>
          if a = [] then Some (Inr results, tr)
          else if \<not> status_ok (get \<lparr>url = a, headers = hdrs, params = ps\<rparr>)
          then Some (Inl HTTPError, tr @ [Request \<lparr>url = a, headers = hdrs, params = ps\<rparr>])
          else get_all_pages_loop get hdrs
                 (links_next (get \<lparr>url = a, headers = hdrs, params = ps\<rparr>)) None
                 (results @ json (get \<lparr>url = a, headers = hdrs, params = ps\<rparr>))
                 (tr @ [Request \<lparr>url = a, headers = hdrs, params = ps\<rparr>]))"

declare get_all_pages_loop.simps [code]

definition get_all_pages ::
  "(request \<Rightarrow> jobj list response) \<Rightarrow> string \<Rightarrow> (string \<times> string) list \<Rightarrow>
   (string \<times> string) list option \<Rightarrow> event list \<Rightarrow>
   ((error + jobj list) \<times> event list) option"
where
  "get_all_pages get u hdrs ps tr = get_all_pages_loop get hdrs (Some u) ps [] tr"

text \<open>
  \<^verbatim>\<open>str()\<close> of a JSON scalar, as the f-strings that build the addresses apply it to
  \<^verbatim>\<open>user_id\<close> and \<^verbatim>\<open>course_id\<close>.
\<close>

fun digits :: "nat \<Rightarrow> string" where
  "digits n =
     (if n < 10 then [''0123456789'' ! n]
      else digits (n div 10) @ [''0123456789'' ! (n mod 10)])"

fun py_str :: "jval \<Rightarrow> string" where
  "py_str JNull = ''None''"
| "py_str (JBool b) = (if b then ''True'' else ''False'')"
| "py_str (JInt i) = (if i < 0 then ''-'' @ digits (nat (- i)) else digits (nat i))"
| "py_str (JStr s) = s"

text \<open>
  A Python \<^verbatim>\<open>datetime\<close>, in microseconds. \<open>Naive t\<close> carries no zone: \<open>t\<close> is its
  wall-clock reading counted from 1970-01-01 00:00. \<open>Aware t off\<close> carries a zone:
  \<open>t\<close> is the instant counted from 1970-01-01 00:00 UTC and \<open>off\<close> its offset from UTC.
\<close>

datatype pydatetime = Naive int | Aware int int

text \<open>
  \<^verbatim>\<open>due_str.replace("Z", "+00:00")\<close>: \<^verbatim>\<open>str.replace\<close> rewrites every occurrence.
\<close>

fun replace_Z :: "string \<Rightarrow> string" where
  "replace_Z [] = []"
| "replace_Z (c # cs) =
     (if c = CHR ''Z'' then ''+00:00'' @ replace_Z cs else c # replace_Z cs)"

text \<open>
  \<^verbatim>\<open>parse_due_date(due_str)\<close>. The standard library's \<^verbatim>\<open>datetime.fromisoformat\<close> is a
  parameter: \<open>None\<close> where it raises \<^verbatim>\<open>ValueError\<close>. A value that is not a string has
  no \<^verbatim>\<open>replace\<close> method.
\<close>

fun parse_due_date :: "(string \<Rightarrow> pydatetime option) \<Rightarrow> jval \<Rightarrow> error + pydatetime" where
  "parse_due_date fromiso (JStr s) =
     (case fromiso (replace_Z s) of None \<Rightarrow> Inl ValueError | Some d \<Rightarrow> Inr d)"
| "parse_due_date fromiso v = Inl AttributeError"

text \<open>
  \<^verbatim>\<open>a >= b\<close> on datetimes: two aware ones compare as instants, two naive ones as
  wall-clock readings, and Python refuses to compare a naive one with an aware one.
\<close>

fun datetime_ge :: "pydatetime \<Rightarrow> pydatetime \<Rightarrow> error + bool" where
  "datetime_ge (Aware s _) (Aware t _) = Inr (s \<ge> t)"
| "datetime_ge (Naive s) (Naive t) = Inr (s \<ge> t)"
| "datetime_ge _ _ = Inl TypeError"

section \<open>The run\<close>

text \<open>
  Everything outside the program that a run depends on: the remote system behind
  \<^verbatim>\<open>requests.get\<close> (its identity endpoint answers with a JSON object, its collection
  endpoints with JSON arrays of objects), \<^verbatim>\<open>datetime.fromisoformat\<close>, the zone database
  (\<open>zoneinfo\<close> is the UTC offset of \<^verbatim>\<open>ZoneInfo("America/Los_Angeles")\<close> at an instant,
  \<open>None\<close> where the constructor raises), and the system clock (\<open>clock k\<close> is its
  \<open>k\<close>-th reading during the run, as an instant).
\<close>

record world =
  get_object :: "request \<Rightarrow> jobj response"
  get_array :: "request \<Rightarrow> jobj list response"
  fromisoformat :: "string \<Rightarrow> pydatetime option"
  zoneinfo :: "(int \<Rightarrow> int) option"
  clock :: "nat \<Rightarrow> int"

text \<open>An entry of \<^verbatim>\<open>all_assignments\<close>.\<close>

record assignment =
  course_name :: jval
  assignment_name :: jval
  due_at :: jval

text \<open>
  The inner loop of lines 124 to 129: \<^verbatim>\<open>a["name"]\<close> raises \<^verbatim>\<open>KeyError\<close> on a record
  without that key, \<^verbatim>\<open>a.get("due_at")\<close> is \<^verbatim>\<open>None\<close> on a record without that one.
\<close>

fun tag_assignments :: "jval \<Rightarrow> jobj list \<Rightarrow> error + assignment list" where
  "tag_assignments cn [] = Inr []"
| "tag_assignments cn (a # rest) =
     (case map_of a ''name'' of
        None \<Rightarrow> Inl KeyError
      | Some n \<Rightarrow>
          (case tag_assignments cn rest of
             Inl e \<Rightarrow> Inl e
           | Inr tagged \<Rightarrow>
               Inr (\<lparr>course_name = cn, assignment_name = n,
                     due_at = (case map_of a ''due_at'' of None \<Rightarrow> JNull | Some d \<Rightarrow> d)\<rparr>
                    # tagged)))"

definition course_display_name :: "jobj \<Rightarrow> jval" where
  "course_display_name course =
     (case map_of course ''name'' of None \<Rightarrow> JStr ''Unnamed Course'' | Some n \<Rightarrow> n)"

text \<open>
  The loop over the courses, lines 118 to 135, with \<open>idx\<close> counting from 1. The progress
  bar is set once the course's assignments are merged, whatever their number.
\<close>

fun course_loop ::
  "world \<Rightarrow> (string \<times> string) list \<Rightarrow> nat \<Rightarrow> jobj list \<Rightarrow> assignment list \<Rightarrow> event list \<Rightarrow>
   ((error + assignment list) \<times> event list) option"
where
  "course_loop w hdrs idx [] all_assignments tr = Some (Inr all_assignments, tr)"
| "course_loop w hdrs idx (course # rest) all_assignments tr =
     (case map_of course ''id'' of
        None \<Rightarrow> Some (Inl KeyError, tr)
      | Some course_id \<Rightarrow>
          (case get_all_pages (get_array w)
                  (BASE_URL @ ''/courses/'' @ py_str course_id @ ''/assignments'') hdrs None tr of
             None \<Rightarrow> None
           | Some (Inl e, tr') \<Rightarrow> Some (Inl e, tr')
           | Some (Inr assignments, tr') \<Rightarrow>
               (case tag_assignments (course_display_name course) assignments of
                  Inl e \<Rightarrow> Some (Inl e, tr')
                | Inr tagged \<Rightarrow>
                    course_loop w hdrs (Suc idx) rest (all_assignments @ tagged)
                      (tr' @ [ProgressValue idx]))))"

text \<open>
  Lines 85 to 135: the token check, the identity request, the list of active courses and
  the loop over them. \<open>token\<close> is the entry's text after \<^verbatim>\<open>strip()\<close>. The percentage
  label is a floating-point figure of the presentation and is left out, as are the log
  lines and the other widgets.
\<close>

definition auth_headers :: "string \<Rightarrow> (string \<times> string) list" where
  "auth_headers token = [(''Authorization'', ''Bearer '' @ token)]"

definition identity_request :: "string \<Rightarrow> request" where
  "identity_request token =
     \<lparr>url = BASE_URL @ ''/users/self'', headers = auth_headers token, params = None\<rparr>"

definition fetch_courses ::
  "world \<Rightarrow> string \<Rightarrow> jval \<Rightarrow> ((error + jobj list) \<times> event list) option"
where
  "fetch_courses w token user_id =
     get_all_pages (get_array w) (BASE_URL @ ''/users/'' @ py_str user_id @ ''/courses'')
       (auth_headers token) (Some [(''enrollment_state'', ''active'')])
       [Request (identity_request token)]"

definition fetch_phase :: "world \<Rightarrow> string \<Rightarrow> ((error + assignment list) \<times> event list) option" where
  "fetch_phase w token =
     (if token = [] then Some (Inl NoToken, [])
      else if \<not> status_ok (get_object w (identity_request token))
      then Some (Inl HTTPError, [Request (identity_request token)])
      else
        (case map_of (json (get_object w (identity_request token))) ''id'' of
           None \<Rightarrow> Some (Inl KeyError, [Request (identity_request token)])
         | Some user_id \<Rightarrow>
             (case fetch_courses w token user_id of
                None \<Rightarrow> None
              | Some (Inl e, tr) \<Rightarrow> Some (Inl e, tr)
              | Some (Inr courses, tr) \<Rightarrow>
                  course_loop w (auth_headers token) 1 courses []
                    (tr @ [ProgressMaximum (max (length courses) 1)]))))"

text \<open>The active courses a run works through, where it gets that far.\<close>

definition enrollments :: "world \<Rightarrow> string \<Rightarrow> jobj list option" where
  "enrollments w token =
     (case map_of (json (get_object w (identity_request token))) ''id'' of
        None \<Rightarrow> None
      | Some user_id \<Rightarrow>
          (case fetch_courses w token user_id of
             Some (Inr courses, tr) \<Rightarrow> Some courses
           | _ \<Rightarrow> None))"

text \<open>
  The list comprehension of lines 144 to 147. It evaluates the records in order and the
  first exception ends it; \<^verbatim>\<open>and\<close> does not call \<^verbatim>\<open>parse_due_date\<close> on \<^verbatim>\<open>None\<close>.
\<close>

fun upcoming_filter ::
  "(string \<Rightarrow> pydatetime option) \<Rightarrow> pydatetime \<Rightarrow> assignment list \<Rightarrow> error + assignment list"
where
  "upcoming_filter fromiso now [] = Inr []"
| "upcoming_filter fromiso now (a # rest) =
     (if due_at a \<noteq> JNull then
        (case parse_due_date fromiso (due_at a) of
           Inl e \<Rightarrow> Inl e
         | Inr d \<Rightarrow>
             (case datetime_ge d now of
                Inl e \<Rightarrow> Inl e
              | Inr keep \<Rightarrow>
                  (case upcoming_filter fromiso now rest of
                     Inl e \<Rightarrow> Inl e
                   | Inr up \<Rightarrow> Inr (if keep then a # up else up))))
      else upcoming_filter fromiso now rest)"

definition no_due_filter :: "assignment list \<Rightarrow> assignment list" where
  "no_due_filter all_assignments = filter (\<lambda>a. due_at a = JNull) all_assignments"

text \<open>
  \<^verbatim>\<open>upcoming_assignments.sort(key=lambda x: parse_due_date(x["due_at"]))\<close>. Python
  computes every key first, in order, then sorts on the keys with a stable sort, here
  \<open>sort_key\<close>. Keys that are all aware order as instants, keys that are all naive as
  wall-clock readings; a mix cannot be ordered.
\<close>

fun parse_keys :: "(string \<Rightarrow> pydatetime option) \<Rightarrow> assignment list \<Rightarrow> error + pydatetime list" where
  "parse_keys fromiso [] = Inr []"
| "parse_keys fromiso (a # rest) =
     (case parse_due_date fromiso (due_at a) of
        Inl e \<Rightarrow> Inl e
      | Inr d \<Rightarrow> (case parse_keys fromiso rest of Inl e \<Rightarrow> Inl e | Inr ds \<Rightarrow> Inr (d # ds)))"

fun is_aware :: "pydatetime \<Rightarrow> bool" where
  "is_aware (Aware _ _) = True"
| "is_aware (Naive _) = False"

fun datetime_key :: "pydatetime \<Rightarrow> int" where
  "datetime_key (Aware t _) = t"
| "datetime_key (Naive t) = t"

definition sort_by_due ::
  "(string \<Rightarrow> pydatetime option) \<Rightarrow> assignment list \<Rightarrow> error + assignment list"
where
  "sort_by_due fromiso xs =
     (case parse_keys fromiso xs of
        Inl e \<Rightarrow> Inl e
      | Inr ks \<Rightarrow>
          if list_all is_aware ks \<or> list_all (\<lambda>k. \<not> is_aware k) ks
          then Inr (map snd (sort_key (\<lambda>p. datetime_key (fst p)) (zip ks xs)))
          else Inl TypeError)"

text \<open>
  What a weekday tab shows for one assignment: the f-string of lines 164 to 168 prints
  these five values.
\<close>

record entry =
  entry_course :: jval
  entry_assignment :: jval
  due_local :: int
  days_remaining :: int
  hours_remaining :: int

definition day_tabs :: "string list" where
  "day_tabs = [''Monday'', ''Tuesday'', ''Wednesday'', ''Thursday'', ''Friday'',
               ''Saturday'', ''Sunday'']"

definition day_us :: int where
  "day_us = 86400000000"

text \<open>\<^verbatim>\<open>strftime("%A")\<close> of a wall-clock reading: 1970-01-01 was a Thursday.\<close>

definition weekday_name :: "int \<Rightarrow> string" where
  "weekday_name t = day_tabs ! nat ((t div day_us + 3) mod 7)"

text \<open>
  A \<^verbatim>\<open>timedelta\<close> of \<open>d\<close> microseconds is kept normalised: \<^verbatim>\<open>.days\<close> is the floor of
  the day count and \<^verbatim>\<open>.seconds\<close> the whole seconds of the rest of the day.
\<close>

definition timedelta_days :: "int \<Rightarrow> int" where
  "timedelta_days d = d div day_us"

definition timedelta_seconds :: "int \<Rightarrow> int" where
  "timedelta_seconds d = (d mod day_us) div 1000000"

definition grouped_append ::
  "(string \<times> entry list) list \<Rightarrow> string \<Rightarrow> entry \<Rightarrow> (string \<times> entry list) list"
where
  "grouped_append grouped weekday e =
     map (\<lambda>(day, es). if day = weekday then (day, es @ [e]) else (day, es)) grouped"

text \<open>
  A \<^verbatim>\<open>datetime\<close> lies between 0001-01-01 00:00:00 and 9999-12-31 23:59:59.999999.
  \<^verbatim>\<open>astimezone\<close> on an aware datetime first takes its offset off, then adds the offset
  of the target zone, and raises \<^verbatim>\<open>OverflowError\<close> when either step leaves that range.
\<close>

definition datetime_min :: int where
  "datetime_min = - 62135596800000000"

definition datetime_max :: int where
  "datetime_max = 253402300799999999"

definition astimezone :: "(int \<Rightarrow> int) \<Rightarrow> int \<Rightarrow> error + int" where
  "astimezone tz t =
     (if datetime_min \<le> t \<and> t \<le> datetime_max \<and>
         datetime_min \<le> t + tz t \<and> t + tz t \<le> datetime_max
      then Inr (t + tz t) else Inl OverflowError)"

text \<open>
  The loop of lines 156 to 168; \<open>k\<close> counts the clock readings. The due time and the
  current time are both put in the local zone and subtracted there, so the delta is the
  difference of the two wall-clock readings. Every key that reaches this loop has been
  compared with the aware \<open>now\<close>, so the naive branch (where \<^verbatim>\<open>astimezone\<close> would
  assume the system zone) is closed with \<open>TypeError\<close>; \<open>group_loop_aware\<close> below shows
  that the loop never takes it on records that parse to aware datetimes.
\<close>

fun group_loop ::
  "(string \<Rightarrow> pydatetime option) \<Rightarrow> (int \<Rightarrow> int) \<Rightarrow> (nat \<Rightarrow> int) \<Rightarrow> nat \<Rightarrow> assignment list \<Rightarrow>
   (string \<times> entry list) list \<Rightarrow> event list \<Rightarrow> (error + (string \<times> entry list) list) \<times> event list"
where
  "group_loop fromiso local_tz clk k [] grouped tr = (Inr grouped, tr)"
| "group_loop fromiso local_tz clk k (item # rest) grouped tr =
     (case parse_due_date fromiso (due_at item) of
        Inl e \<Rightarrow> (Inl e, tr)
      | Inr (Naive t) \<Rightarrow> (Inl TypeError, tr)
      | Inr (Aware t off) \<Rightarrow>
          (case astimezone local_tz t of
             Inl e \<Rightarrow> (Inl e, tr)
           | Inr due_dt_local \<Rightarrow>
               (let delta = due_dt_local - (clk k + local_tz (clk k))
                in group_loop fromiso local_tz clk (Suc k) rest
                     (grouped_append grouped (weekday_name due_dt_local)
                        \<lparr>entry_course = course_name item,
                         entry_assignment = assignment_name item,
                         due_local = due_dt_local, days_remaining = timedelta_days delta,
                         hours_remaining = max 0 (timedelta_seconds delta div 3600)\<rparr>)
                     (tr @ [ClockRead]))))"

record result =
  grouped :: "(string \<times> entry list) list"
  no_due_assignments :: "assignment list"

text \<open>
  Lines 137 to 168: \<open>now\<close> is read once, before anything is classified; it is an aware
  datetime in UTC.
\<close>

text \<open>
  Lines 138 to 141: the zone of the display, UTC where \<^verbatim>\<open>ZoneInfo\<close> raises.
\<close>

definition local_zone :: "world \<Rightarrow> int \<Rightarrow> int" where
  "local_zone w = (case zoneinfo w of Some tz \<Rightarrow> tz | None \<Rightarrow> (\<lambda>t. 0))"

definition classify_and_group ::
  "world \<Rightarrow> assignment list \<Rightarrow> event list \<Rightarrow> (error + result) \<times> event list"
where
  "classify_and_group w all_assignments tr =
     (let now = Aware (clock w 0) 0;
          local_tz = local_zone w
      in case upcoming_filter (fromisoformat w) now all_assignments of
           Inl e \<Rightarrow> (Inl e, tr @ [ClockRead])
         | Inr upcoming \<Rightarrow>
             (case sort_by_due (fromisoformat w) upcoming of
                Inl e \<Rightarrow> (Inl e, tr @ [ClockRead])
              | Inr sorted_upcoming \<Rightarrow>
                  (case group_loop (fromisoformat w) local_tz (clock w) 1 sorted_upcoming
                          (map (\<lambda>day. (day, [])) day_tabs) (tr @ [ClockRead]) of
                     (Inl e, tr') \<Rightarrow> (Inl e, tr')
                   | (Inr g, tr') \<Rightarrow>
                       (Inr \<lparr>grouped = g,
                             no_due_assignments = no_due_filter all_assignments\<rparr>, tr'))))"

text \<open>
  \<^verbatim>\<open>fetch_assignments_thread\<close>: every exception ends the run in one of the two
  \<^verbatim>\<open>except\<close> clauses, which show it in a dialog; the tabs, cleared at the start, stay
  empty. \<open>Inl\<close> is such a run, \<open>Inr\<close> one that filled the tabs.
\<close>

definition fetch_assignments_thread ::
  "world \<Rightarrow> string \<Rightarrow> ((error + result) \<times> event list) option"
where
  "fetch_assignments_thread w token =
     (case fetch_phase w token of
        None \<Rightarrow> None
      | Some (Inl e, tr) \<Rightarrow> Some (Inl e, tr)
      | Some (Inr all_assignments, tr) \<Rightarrow> Some (classify_and_group w all_assignments tr))"

section \<open>Concrete inputs\<close>

text \<open>
  A chain of pages as the server serves it: each pair is a page's address and its body;
  the first is requested with the caller's parameters, the others with none; every page
  but the last names the next one's address, the last has no next link.
\<close>

fun page_chain ::
  "(request \<Rightarrow> jobj list response) \<Rightarrow> (string \<times> string) list \<Rightarrow>
   (string \<times> string) list option \<Rightarrow> (string \<times> jobj list) list \<Rightarrow> bool"
where
  "page_chain get hdrs ps [] = False"
| "page_chain get hdrs ps [(a, pg)] =
     (a \<noteq> [] \<and> status_ok (get \<lparr>url = a, headers = hdrs, params = ps\<rparr>) \<and>
      json (get \<lparr>url = a, headers = hdrs, params = ps\<rparr>) = pg \<and>
      links_next (get \<lparr>url = a, headers = hdrs, params = ps\<rparr>) = None)"
| "page_chain get hdrs ps ((a, pg) # (b, pg') # rest) =
     (a \<noteq> [] \<and> status_ok (get \<lparr>url = a, headers = hdrs, params = ps\<rparr>) \<and>
      json (get \<lparr>url = a, headers = hdrs, params = ps\<rparr>) = pg \<and>
      links_next (get \<lparr>url = a, headers = hdrs, params = ps\<rparr>) = Some b \<and>
      page_chain get hdrs None ((b, pg') # rest))"

text \<open>The requests a chain costs: the first carries the parameters, the rest none.\<close>

fun chain_requests ::
  "(string \<times> string) list \<Rightarrow> (string \<times> string) list option \<Rightarrow>
   (string \<times> jobj list) list \<Rightarrow> event list"
where
  "chain_requests hdrs ps [] = []"
| "chain_requests hdrs ps ((a, pg) # rest) =
     Request \<lparr>url = a, headers = hdrs, params = ps\<rparr> # chain_requests hdrs None rest"

text \<open>A three-page collection of sizes 2, 2 and 1, for concrete runs.\<close>

definition rec_named :: "string \<Rightarrow> jobj" where
  "rec_named n = [(''name'', JStr n)]"

definition three_pages :: "request \<Rightarrow> jobj list response" where
  "three_pages rq =
     (if url rq = ''p1'' then
        \<lparr>status_ok = True, json = [rec_named ''a'', rec_named ''b''], links_next = Some ''p2''\<rparr>
      else if url rq = ''p2'' then
        \<lparr>status_ok = True, json = [rec_named ''c'', rec_named ''d''], links_next = Some ''p3''\<rparr>
      else if url rq = ''p3'' then
        \<lparr>status_ok = True, json = [rec_named ''e''], links_next = None\<rparr>
      else \<lparr>status_ok = False, json = [], links_next = None\<rparr>)"

text \<open>
  A finite part of the graph of \<^verbatim>\<open>datetime.fromisoformat\<close>: the strings the concrete
  runs below hand to it, with the values Python gives them. The first four carry an
  offset (the fourth with seconds in it, which Python accepts) and parse to aware
  datetimes, the fifth carries none and parses to a naive one, and Python rejects the
  remaining strings those runs use (\<^verbatim>\<open>not-a-date\<close>, \<^verbatim>\<open>2024-03-07T23:59Z:00\<close>).
\<close>

definition fromisoformat_sample :: "string \<Rightarrow> pydatetime option" where
  "fromisoformat_sample s =
     (if s = ''2024-03-07T23:59:00+00:00'' then Some (Aware 1709855940000000 0)
      else if s = ''2024-03-04T10:00:00+00:00'' then Some (Aware 1709546400000000 0)
      else if s = ''2024-03-01T00:00:00+00:00'' then Some (Aware 1709251200000000 0)
      else if s = ''2024-03-07T23:59+00:00:00'' then Some (Aware 1709855940000000 0)
      else if s = ''2024-03-07T23:59:00'' then Some (Naive 1709855940000000)
      else None)"

text \<open>
  A remote system with the user 7 and two courses, the second without a name. The first
  course has an assignment due on 2024-03-07 at 23:59 UTC and one without a due date, the
  second one due on 2024-03-04 at 10:00 UTC. Every other address answers with an error
  status.
\<close>

definition sample_object :: "request \<Rightarrow> jobj response" where
  "sample_object rq =
     (if url rq = ''https://canvas.sfu.ca/api/v1/users/self'' then
        \<lparr>status_ok = True, json = [(''id'', JInt 7), (''name'', JStr ''Ada'')], links_next = None\<rparr>
      else \<lparr>status_ok = False, json = [], links_next = None\<rparr>)"

definition sample_array :: "jobj list \<Rightarrow> request \<Rightarrow> jobj list response" where
  "sample_array second rq =
     (if url rq = ''https://canvas.sfu.ca/api/v1/users/7/courses'' then
        \<lparr>status_ok = True,
         json = [[(''id'', JInt 1), (''name'', JStr ''Calc'')], [(''id'', JInt 2)]],
         links_next = None\<rparr>
      else if url rq = ''https://canvas.sfu.ca/api/v1/courses/1/assignments'' then
        \<lparr>status_ok = True,
         json = [[(''name'', JStr ''HW1''), (''due_at'', JStr ''2024-03-07T23:59:00Z'')],
                 [(''name'', JStr ''HW2''), (''due_at'', JNull)]],
         links_next = None\<rparr>
      else if url rq = ''https://canvas.sfu.ca/api/v1/courses/2/assignments'' then
        \<lparr>status_ok = True, json = second, links_next = None\<rparr>
      else \<lparr>status_ok = False, json = [], links_next = None\<rparr>)"

text \<open>
  The world of the concrete runs: the clock reads 2024-03-04 10:00:00 UTC first and one
  second more at each later reading; the local zone is eight hours behind UTC. \<open>second\<close>
  is the assignment list of the second course.
\<close>

definition sample_world :: "jobj list \<Rightarrow> world" where
  "sample_world second =
     \<lparr>get_object = sample_object, get_array = sample_array second,
      fromisoformat = fromisoformat_sample,
      zoneinfo = Some (\<lambda>t. - 28800000000),
      clock = (\<lambda>k. 1709546400000000 + 1000000 * int k)\<rparr>"

definition essay_due_now :: "jobj list" where
  "essay_due_now = [[(''name'', JStr ''Essay''), (''due_at'', JStr ''2024-03-04T10:00:00Z'')]]"

definition essay_bad_date :: "jobj list" where
  "essay_bad_date =
     [[(''name'', JStr ''Essay''), (''due_at'', JStr ''not-a-date'')],
      [(''name'', JStr ''Quiz''), (''due_at'', JStr ''2024-03-07T23:59:00Z'')]]"



section \<open>Reading a trace\<close>

fun is_request :: "event \<Rightarrow> bool" where
  "is_request (Request _) = True"
| "is_request _ = False"

text \<open>A request event whose answer, from \<open>get\<close>, has a success status.\<close>

fun request_ok :: "(request \<Rightarrow> 'a response) \<Rightarrow> event \<Rightarrow> bool" where
  "request_ok get (Request rq) = status_ok (get rq)"
| "request_ok get _ = True"

text \<open>The values the progress bar was given, in order.\<close>

fun progress_values :: "event list \<Rightarrow> nat list" where
  "progress_values [] = []"
| "progress_values (ProgressValue i # es) = i # progress_values es"
| "progress_values (_ # es) = progress_values es"

text \<open>
  A trace that stops at a refused request: its last event is a request answered with an
  error status, and every request before it was answered with success.
\<close>

definition halted_on :: "(request \<Rightarrow> 'a response) \<Rightarrow> event list \<Rightarrow> bool" where
  "halted_on get evs =
     (case rev evs of
        Request rq # before \<Rightarrow> \<not> status_ok (get rq) \<and> list_all (request_ok get) before
      | _ \<Rightarrow> False)"

section \<open>Reading a result\<close>

text \<open>Every entry shown in a weekday tab.\<close>

definition entries :: "(string \<times> entry list) list \<Rightarrow> entry list" where
  "entries g = concat (map snd g)"

text \<open>
  An entry whose remaining time is the delta between its local due time and the \<open>k\<close>-th
  clock reading in the zone \<open>tz\<close>, split the way lines 160 to 162 split it.
\<close>

definition remaining_at :: "(int \<Rightarrow> int) \<Rightarrow> (nat \<Rightarrow> int) \<Rightarrow> nat \<Rightarrow> entry \<Rightarrow> bool" where
  "remaining_at tz clk k e =
     (let delta = due_local e - (clk k + tz (clk k))
      in days_remaining e = timedelta_days delta \<and>
         hours_remaining e = max 0 (timedelta_seconds delta div 3600))"

definition sample_result :: result where
  "sample_result =
     \<lparr>grouped =
        [(''Monday'',
          [\<lparr>entry_course = JStr ''Unnamed Course'', entry_assignment = JStr ''Essay'',
            due_local = 1709517600000000, days_remaining = - 1, hours_remaining = 23\<rparr>]),
         (''Tuesday'', []), (''Wednesday'', []),
         (''Thursday'',
          [\<lparr>entry_course = JStr ''Calc'', entry_assignment = JStr ''HW1'',
            due_local = 1709827140000000, days_remaining = 3, hours_remaining = 13\<rparr>]),
         (''Friday'', []), (''Saturday'', []), (''Sunday'', [])],
      no_due_assignments =
        [\<lparr>course_name = JStr ''Calc'', assignment_name = JStr ''HW2'', due_at = JNull\<rparr>]\<rparr>"

definition sample_trace :: "event list" where
  "sample_trace =
     [Request (identity_request ''tok''),
      Request \<lparr>url = ''https://canvas.sfu.ca/api/v1/users/7/courses'',
               headers = auth_headers ''tok'',
               params = Some [(''enrollment_state'', ''active'')]\<rparr>,
      ProgressMaximum 2,
      Request \<lparr>url = ''https://canvas.sfu.ca/api/v1/courses/1/assignments'',
               headers = auth_headers ''tok'', params = None\<rparr>,
      ProgressValue 1,
      Request \<lparr>url = ''https://canvas.sfu.ca/api/v1/courses/2/assignments'',
               headers = auth_headers ''tok'', params = None\<rparr>,
      ProgressValue 2, ClockRead, ClockRead, ClockRead]"

section \<open>The normaliser as the specification words it\<close>



section \<open>The three classes as the specification words them\<close>

text \<open>
  The instant a record is due at, where its due date parses to an aware datetime. The
  specification's three classes follow: upcoming (due at or after \<open>now\<close>), without a
  due date, and past (due before \<open>now\<close>, discarded).
\<close>

definition due_instant :: "(string \<Rightarrow> pydatetime option) \<Rightarrow> assignment \<Rightarrow> int option" where
  "due_instant fromiso a =
     (case parse_due_date fromiso (due_at a) of
        Inr (Aware t off) \<Rightarrow> Some t
      | _ \<Rightarrow> None)"

definition is_upcoming :: "(string \<Rightarrow> pydatetime option) \<Rightarrow> int \<Rightarrow> assignment \<Rightarrow> bool" where
  "is_upcoming fromiso now a =
     (case due_instant fromiso a of Some t \<Rightarrow> now \<le> t | None \<Rightarrow> False)"

definition is_no_due :: "assignment \<Rightarrow> bool" where
  "is_no_due a = (due_at a = JNull)"

definition is_past :: "(string \<Rightarrow> pydatetime option) \<Rightarrow> int \<Rightarrow> assignment \<Rightarrow> bool" where
  "is_past fromiso now a =
     (case due_instant fromiso a of Some t \<Rightarrow> t < now | None \<Rightarrow> False)"

text \<open>The merged list of the run whose second course holds a malformed due date.\<close>

definition bad_date_merged :: "assignment list" where
  "bad_date_merged =
     [\<lparr>course_name = JStr ''Calc'', assignment_name = JStr ''HW1'',
       due_at = JStr ''2024-03-07T23:59:00Z''\<rparr>,
      \<lparr>course_name = JStr ''Calc'', assignment_name = JStr ''HW2'', due_at = JNull\<rparr>,
      \<lparr>course_name = JStr ''Unnamed Course'', assignment_name = JStr ''Essay'',
       due_at = JStr ''not-a-date''\<rparr>,
      \<lparr>course_name = JStr ''Unnamed Course'', assignment_name = JStr ''Quiz'',
       due_at = JStr ''2024-03-07T23:59:00Z''\<rparr>]"

definition fetch_trace :: "event list" where
  "fetch_trace =
     [Request (identity_request ''tok''),
      Request \<lparr>url = ''https://canvas.sfu.ca/api/v1/users/7/courses'',
               headers = auth_headers ''tok'',
               params = Some [(''enrollment_state'', ''active'')]\<rparr>,
      ProgressMaximum 2,
      Request \<lparr>url = ''https://canvas.sfu.ca/api/v1/courses/1/assignments'',
               headers = auth_headers ''tok'', params = None\<rparr>,
      ProgressValue 1,
      Request \<lparr>url = ''https://canvas.sfu.ca/api/v1/courses/2/assignments'',
               headers = auth_headers ''tok'', params = None\<rparr>,
      ProgressValue 2]"

text \<open>
  A merged list with a record of each class for the clock reading 2024-03-04 10:00 UTC:
  one due later, one without a due date, one due at that very instant, one due before.
\<close>

definition sample_merged :: "assignment list" where
  "sample_merged =
     [\<lparr>course_name = JStr ''Calc'', assignment_name = JStr ''HW1'',
       due_at = JStr ''2024-03-07T23:59:00Z''\<rparr>,
      \<lparr>course_name = JStr ''Calc'', assignment_name = JStr ''HW2'', due_at = JNull\<rparr>,
      \<lparr>course_name = JStr ''Unnamed Course'', assignment_name = JStr ''Essay'',
       due_at = JStr ''2024-03-04T10:00:00Z''\<rparr>,
      \<lparr>course_name = JStr ''Unnamed Course'', assignment_name = JStr ''Old'',
       due_at = JStr ''2024-03-01T00:00:00Z''\<rparr>]"

section \<open>Reading the sort\<close>

text \<open>The key the sort gives a record: its parsed due date, as a number.\<close>

definition due_key :: "(string \<Rightarrow> pydatetime option) \<Rightarrow> assignment \<Rightarrow> int" where
  "due_key fromiso a =
     (case parse_due_date fromiso (due_at a) of Inr d \<Rightarrow> datetime_key d | Inl e \<Rightarrow> 0)"


section \<open>Reading a halted run\<close>

text \<open>
  How a trace relates to the outcome: a run that ended in \<^verbatim>\<open>HTTPError\<close> stopped at a
  refused request, and in every other run each request was answered with success.
\<close>

definition stops_at_refusal :: "(request \<Rightarrow> 'a response) \<Rightarrow> error + 'b \<Rightarrow> event list \<Rightarrow> bool" where
  "stops_at_refusal get out evs =
     (if out = Inl HTTPError then halted_on get evs else list_all (request_ok get) evs)"

text \<open>A record of the merged list that some weekday tab shows.\<close>

definition shown :: "result \<Rightarrow> assignment \<Rightarrow> bool" where
  "shown res a =
     list_ex (\<lambda>e. entry_course e = course_name a \<and> entry_assignment e = assignment_name a)
       (entries (grouped res))"

section \<open>Reading the merge\<close>

text \<open>
  A merged record \<open>t\<close> made from the fetched assignment \<open>a\<close> of a course shown as \<open>cn\<close>:
  it carries that course name, the assignment's name and its due date, \<open>JNull\<close> where
  the assignment has none.
\<close>

definition tagged_as :: "jval \<Rightarrow> jobj \<Rightarrow> assignment \<Rightarrow> bool" where
  "tagged_as cn a t =
     (course_name t = cn \<and> map_of a ''name'' = Some (assignment_name t) \<and>
      due_at t = (case map_of a ''due_at'' of None \<Rightarrow> JNull | Some d \<Rightarrow> d))"

text \<open>
  A loop over a course without a name followed by the course Calc, started on a merge
  buffer that already holds one record.
\<close>

definition earlier_merged :: "assignment list" where
  "earlier_merged =
     [\<lparr>course_name = JStr ''Earlier'', assignment_name = JStr ''Lab'', due_at = JNull\<rparr>]"

definition nameless_then_calc :: "jobj list" where
  "nameless_then_calc = [[(''id'', JInt 2)], [(''id'', JInt 1), (''name'', JStr ''Calc'')]]"

section \<open>Runs that are refused\<close>





section \<open>A run with a record of each class\<close>

text \<open>
  The assignments of the second course in the run that fetches \<open>sample_merged\<close>: an
  essay due at the very instant the clock reads first, and one due three days before.
\<close>

definition essay_and_old :: "jobj list" where
  "essay_and_old =
     [[(''name'', JStr ''Essay''), (''due_at'', JStr ''2024-03-04T10:00:00Z'')],
      [(''name'', JStr ''Old''), (''due_at'', JStr ''2024-03-01T00:00:00Z'')]]"

section \<open>Paginated fetch\<close>

lemma get_all_pages_loop_chain:
  "page_chain get hdrs ps ch \<Longrightarrow>
   get_all_pages_loop get hdrs (Some (fst (hd ch))) ps results tr =
     Some (Inr (results @ concat (map snd ch)), tr @ chain_requests hdrs ps ch)"
proof (induction get hdrs ps ch arbitrary: results tr rule: page_chain.induct)
  case (1 get hdrs ps)
  then show ?case by simp
next
  case (2 get hdrs ps a pg)
  then show ?case
    by (simp add: get_all_pages_loop.simps [of get hdrs "Some a"]
        get_all_pages_loop.simps [of get hdrs None])
next
  case (3 get hdrs ps a pg b pg' rest)
  from "3.prems" have chain: "page_chain get hdrs None ((b, pg') # rest)"
    by simp
  have step: "get_all_pages_loop get hdrs (Some a) ps results tr =
      get_all_pages_loop get hdrs (Some b) None (results @ pg)
        (tr @ [Request \<lparr>url = a, headers = hdrs, params = ps\<rparr>])"
    using "3.prems" by (simp add: get_all_pages_loop.simps [of get hdrs "Some a"])
  show ?case
    using "3.IH" [OF chain, of "results @ pg"
        "tr @ [Request \<lparr>url = a, headers = hdrs, params = ps\<rparr>]"] step
    by simp
qed

text \<open>
  C3. For every chain of pages that ends in a page with no next link, the fetch returns
  the bodies concatenated in page order then in-page order, and sends exactly one request
  per page: the first with the caller's parameters, every later one with none.
\<close>

theorem get_all_pages_chain:
  assumes "page_chain get hdrs ps ch"
  shows "get_all_pages get (fst (hd ch)) hdrs ps tr =
           Some (Inr (concat (map snd ch)), tr @ chain_requests hdrs ps ch)
         \<and> length (chain_requests hdrs ps ch) = length ch
         \<and> (\<forall>e \<in> set (tl (chain_requests hdrs ps ch)).
              \<exists>rq. e = Request rq \<and> params rq = None)
         \<and> hd (chain_requests hdrs ps ch) =
              Request \<lparr>url = fst (hd ch), headers = hdrs, params = ps\<rparr>"
proof -
  have len: "length (chain_requests hdrs qs xs) = length xs" for qs xs
    by (induction hdrs qs xs rule: chain_requests.induct) auto
  have none: "\<forall>e \<in> set (chain_requests hdrs None xs). \<exists>rq. e = Request rq \<and> params rq = None"
    for xs
    by (induction xs) auto
  from assms obtain a pg rest where ch: "ch = (a, pg) # rest"
    by (cases ch) auto
  show ?thesis
    using get_all_pages_loop_chain [OF assms, of "[]" tr] len [of ps ch] none [of rest]
    by (simp add: get_all_pages_def ch)
qed

theorem get_all_pages_chain_witness:
  "page_chain three_pages [] (Some [(''per_page'', ''2'')])
     [(''p1'', [rec_named ''a'', rec_named ''b'']), (''p2'', [rec_named ''c'', rec_named ''d'']),
      (''p3'', [rec_named ''e''])]
   \<and> get_all_pages three_pages ''p1'' [] (Some [(''per_page'', ''2'')]) [] =
       Some (Inr [rec_named ''a'', rec_named ''b'', rec_named ''c'', rec_named ''d'',
                  rec_named ''e''],
             [Request \<lparr>url = ''p1'', headers = [], params = Some [(''per_page'', ''2'')]\<rparr>,
              Request \<lparr>url = ''p2'', headers = [], params = None\<rparr>,
              Request \<lparr>url = ''p3'', headers = [], params = None\<rparr>])"
proof -
  have chain: "page_chain three_pages [] (Some [(''per_page'', ''2'')])
     [(''p1'', [rec_named ''a'', rec_named ''b'']), (''p2'', [rec_named ''c'', rec_named ''d'']),
      (''p3'', [rec_named ''e''])]"
    by (simp add: three_pages_def)
  show ?thesis
    using chain get_all_pages_chain [OF chain, of "[]"] by simp
qed

subsection \<open>What a fetch leaves in the trace\<close>

lemma halted_on_Cons:
  "request_ok get e \<Longrightarrow> halted_on get evs \<Longrightarrow> halted_on get (e # evs)"
  by (auto simp: halted_on_def split: list.splits event.splits)

lemma halted_on_append:
  "list_all (request_ok get) xs \<Longrightarrow> halted_on get evs \<Longrightarrow> halted_on get (xs @ evs)"
  by (induction xs) (auto intro: halted_on_Cons)

lemma get_all_pages_loop_trace:
  assumes "get_all_pages_loop get hdrs u ps results tr = Some y"
  shows "\<exists>evs. snd y = tr @ evs \<and> list_all is_request evs \<and>
     (case fst y of
        Inr _ \<Rightarrow> list_all (request_ok get) evs
      | Inl e \<Rightarrow> e = HTTPError \<and> halted_on get evs)"
proof (induct get hdrs u ps results tr y rule: get_all_pages_loop.raw_induct)
  case (1 loop get hdrs u ps results tr y)
  show ?case
  proof (cases u)
    case None
    with 1(2) show ?thesis by auto
  next
    case (Some a)
    let ?rq = "\<lparr>url = a, headers = hdrs, params = ps\<rparr>"
    show ?thesis
    proof (cases "a = []")
      case True
      with Some 1(2) show ?thesis by auto
    next
      case False
      show ?thesis
      proof (cases "status_ok (get ?rq)")
        case False
        with Some \<open>a \<noteq> []\<close> 1(2) have "y = (Inl HTTPError, tr @ [Request ?rq])"
          by simp
        with False show ?thesis
          by (simp add: halted_on_def)
      next
        case True
        with Some \<open>a \<noteq> []\<close> 1(2)
        have "loop get hdrs (links_next (get ?rq)) None (results @ json (get ?rq))
                (tr @ [Request ?rq]) = Some y"
          by simp
        from 1(1) [OF this] obtain evs where
          evs: "snd y = (tr @ [Request ?rq]) @ evs" "list_all is_request evs"
            "case fst y of Inr _ \<Rightarrow> list_all (request_ok get) evs
             | Inl e \<Rightarrow> e = HTTPError \<and> halted_on get evs"
          by blast
        have "snd y = tr @ (Request ?rq # evs)"
          using evs(1) by simp
        moreover have "list_all is_request (Request ?rq # evs)"
          using evs(2) by simp
        moreover have "case fst y of Inr _ \<Rightarrow> list_all (request_ok get) (Request ?rq # evs)
             | Inl e \<Rightarrow> e = HTTPError \<and> halted_on get (Request ?rq # evs)"
          using evs(3) True by (auto split: sum.splits intro: halted_on_Cons)
        ultimately show ?thesis by blast
      qed
    qed
  qed
next
  case 2
  show ?case by (rule assms)
qed

section \<open>Grouping by weekday\<close>

lemma hours_bounds:
  "0 \<le> timedelta_seconds d div 3600 \<and> timedelta_seconds d div 3600 \<le> 23
  \<and> timedelta_seconds d div 3600 = (d mod day_us) div 3600000000"
proof -
  define m where "m = d mod 86400000000"
  have m: "0 \<le> m" "m < 86400000000" by (simp_all add: m_def)
  have eq: "m div 1000000 div 3600 = m div 3600000000"
    by (simp add: div_mult2_eq [symmetric])
  have "0 \<le> m div 3600000000" using m by simp
  moreover have "m div 3600000000 \<le> 23" using m by simp
  ultimately show ?thesis
    unfolding timedelta_seconds_def day_us_def m_def [symmetric] eq by simp
qed

lemma entries_simps:
  "entries [] = []"
  "entries ((day, es) # g) = es @ entries g"
  by (simp_all add: entries_def)

lemma grouped_append_simps:
  "grouped_append [] wd e = []"
  "grouped_append ((day, es) # g) wd e =
     (if day = wd then (day, es @ [e]) else (day, es)) # grouped_append g wd e"
  by (simp_all add: grouped_append_def)

lemma entries_grouped_append:
  "set (entries (grouped_append g wd e)) \<subseteq> insert e (set (entries g))"
  by (induction g) (auto simp: entries_simps grouped_append_simps split: if_splits)

lemma keys_grouped_append: "map fst (grouped_append g wd e) = map fst g"
  by (induction g) (auto simp: grouped_append_simps)

lemma entries_grouped_append_mem:
  "wd \<in> set (map fst g) \<Longrightarrow> e \<in> set (entries (grouped_append g wd e))"
  by (induction g) (force simp: entries_simps grouped_append_simps)+

lemma entries_grouped_append_mono:
  "x \<in> set (entries g) \<Longrightarrow> x \<in> set (entries (grouped_append g wd e))"
  by (induction g) (auto simp: entries_simps grouped_append_simps)

lemma group_loop_entries:
  "group_loop fromiso tz clk k items g tr = (Inr g', tr') \<Longrightarrow>
   e \<in> set (entries g') \<Longrightarrow>
   e \<in> set (entries g) \<or> (\<exists>j. remaining_at tz clk j e)"
proof (induction items arbitrary: k g tr)
  case Nil
  then show ?case by simp
next
  case (Cons item rest)
  from Cons.prems(1) obtain t off dl where
    p: "parse_due_date fromiso (due_at item) = Inr (Aware t off)"
    and a: "astimezone tz t = Inr dl"
    by (auto split: sum.splits pydatetime.splits)
  define new where "new = \<lparr>entry_course = course_name item, entry_assignment = assignment_name item,
        due_local = dl,
        days_remaining = timedelta_days (dl - (clk k + tz (clk k))),
        hours_remaining = max 0 (timedelta_seconds (dl - (clk k + tz (clk k))) div 3600)\<rparr>"
  have step: "group_loop fromiso tz clk (Suc k) rest
      (grouped_append g (weekday_name dl) new) (tr @ [ClockRead]) = (Inr g', tr')"
    using Cons.prems(1) p a by (simp add: new_def Let_def)
  from Cons.IH [OF step Cons.prems(2)]
  consider "e \<in> set (entries (grouped_append g (weekday_name dl) new))"
    | "\<exists>j. remaining_at tz clk j e"
    by blast
  then show ?case
  proof cases
    case 1
    then have "e = new \<or> e \<in> set (entries g)"
      using entries_grouped_append by fastforce
    moreover have "remaining_at tz clk k new"
      by (simp add: remaining_at_def new_def)
    ultimately show ?thesis by blast
  next
    case 2
    then show ?thesis by blast
  qed
qed

lemma group_loop_trace:
  "group_loop fromiso tz clk k items g tr = (out, tr') \<Longrightarrow>
   \<exists>n. tr' = tr @ replicate n ClockRead"
proof (induction items arbitrary: k g tr)
  case Nil
  then show ?case by (auto intro: exI [of _ 0])
next
  case (Cons item rest)
  show ?case
  proof (cases "parse_due_date fromiso (due_at item)")
    case (Inl e)
    with Cons.prems show ?thesis by (auto intro: exI [of _ 0])
  next
    case (Inr d)
    show ?thesis
    proof (cases d)
      case (Naive t)
      with Inr Cons.prems show ?thesis by (auto intro: exI [of _ 0])
    next
      case (Aware t off)
      show ?thesis
      proof (cases "astimezone tz t")
        case (Inl e)
        with Aware Inr Cons.prems show ?thesis by (auto intro: exI [of _ 0])
      next
        case dl: (Inr dl)
        with Aware Inr Cons.prems obtain g1 where
          "group_loop fromiso tz clk (Suc k) rest g1 (tr @ [ClockRead]) = (out, tr')"
          by (auto simp: Let_def)
        from Cons.IH [OF this] obtain n where "tr' = (tr @ [ClockRead]) @ replicate n ClockRead"
          by blast
        then have "tr' = tr @ replicate (Suc n) ClockRead"
          by simp
        then show ?thesis by blast
      qed
    qed
  qed
qed


lemma classify_and_group_success:
  assumes "classify_and_group w all_assignments tr = (Inr res, tr')"
  shows "\<exists>up s. upcoming_filter (fromisoformat w) (Aware (clock w 0) 0) all_assignments = Inr up \<and>
           sort_by_due (fromisoformat w) up = Inr s \<and>
           group_loop (fromisoformat w) (local_zone w) (clock w) 1 s
             (map (\<lambda>day. (day, [])) day_tabs) (tr @ [ClockRead]) = (Inr (grouped res), tr') \<and>
           no_due_assignments res = no_due_filter all_assignments"
  using assms
  by (auto simp: classify_and_group_def Let_def split: sum.splits prod.splits)

lemma run_success:
  assumes "fetch_assignments_thread w token = Some (Inr res, tr)"
  shows "\<exists>all_assignments tr0. fetch_phase w token = Some (Inr all_assignments, tr0) \<and>
           classify_and_group w all_assignments tr0 = (Inr res, tr)"
  using assms
  by (auto simp: fetch_assignments_thread_def split: option.splits sum.splits prod.splits)

lemma entries_empty_tabs: "entries (map (\<lambda>day. (day, [])) ds) = []"
  by (induction ds) (simp_all add: entries_simps)

text \<open>
  C10. In every weekday tab of a run that succeeds, the hours shown lie between 0 and 23:
  they are the whole hours of the last, partial day of the delta between the local due
  time and a clock reading taken for that record, not the delta's total hours, and so
  they are never negative, also when the days shown are.
\<close>

theorem hours_remaining_range:
  assumes "fetch_assignments_thread w token = Some (Inr res, tr)"
  shows "\<forall>e \<in> set (entries (grouped res)).
           0 \<le> hours_remaining e \<and> hours_remaining e \<le> 23 \<and>
           (\<exists>k. remaining_at (local_zone w) (clock w) k e \<and>
                hours_remaining e =
                  ((due_local e - (clock w k + local_zone w (clock w k))) mod day_us)
                    div 3600000000)"
proof
  fix e
  assume e: "e \<in> set (entries (grouped res))"
  from run_success [OF assms] obtain all_assignments tr0 where
    "classify_and_group w all_assignments tr0 = (Inr res, tr)"
    by blast
  from classify_and_group_success [OF this] obtain s where
    "group_loop (fromisoformat w) (local_zone w) (clock w) 1 s
       (map (\<lambda>day. (day, [])) day_tabs) (tr0 @ [ClockRead]) = (Inr (grouped res), tr)"
    by blast
  from group_loop_entries [OF this e] obtain k where
    k: "remaining_at (local_zone w) (clock w) k e"
    by (auto simp: entries_empty_tabs)
  define delta where "delta = due_local e - (clock w k + local_zone w (clock w k))"
  have h: "hours_remaining e = max 0 (timedelta_seconds delta div 3600)"
    using k by (simp add: remaining_at_def delta_def Let_def)
  from hours_bounds [of delta] have
    "0 \<le> hours_remaining e" "hours_remaining e \<le> 23"
    "hours_remaining e = (delta mod day_us) div 3600000000"
    using h by simp_all
  with k show "0 \<le> hours_remaining e \<and> hours_remaining e \<le> 23 \<and>
           (\<exists>k. remaining_at (local_zone w) (clock w) k e \<and>
                hours_remaining e =
                  ((due_local e - (clock w k + local_zone w (clock w k))) mod day_us)
                    div 3600000000)"
    unfolding delta_def by blast
qed

subsection \<open>A concrete run\<close>

lemma sample_run:
  "fetch_assignments_thread (sample_world essay_due_now) ''tok'' =
     Some (Inr sample_result, sample_trace)"
  by code_simp

theorem hours_remaining_range_witness:
  "fetch_assignments_thread (sample_world essay_due_now) ''tok'' =
     Some (Inr sample_result, sample_trace)
   \<and> list_all (\<lambda>e. 0 \<le> hours_remaining e \<and> hours_remaining e \<le> 23)
         (entries (grouped sample_result))
   \<and> (\<exists>e \<in> set (entries (grouped sample_result)).
         days_remaining e = - 1 \<and> hours_remaining e = 23)"
  using hours_remaining_range [OF sample_run] sample_run
  by (simp add: sample_result_def entries_def)

section \<open>Due-date normaliser\<close>

lemma replace_Z_concat:
  "replace_Z s = concat (map (\<lambda>c. if c = CHR ''Z'' then ''+00:00'' else [c]) s)"
  by (induction s) simp_all












section \<open>Classification\<close>

lemma upcoming_filter_parses:
  "upcoming_filter fromiso now xs = Inr up \<Longrightarrow> a \<in> set xs \<Longrightarrow> due_at a \<noteq> JNull \<Longrightarrow>
   \<exists>d keep. parse_due_date fromiso (due_at a) = Inr d \<and> datetime_ge d now = Inr keep"
  by (induction xs arbitrary: up) (auto split: if_splits sum.splits)

lemma upcoming_filter_errors:
  "upcoming_filter fromiso now xs = Inl e \<Longrightarrow> e \<in> {ValueError, TypeError, AttributeError}"
proof (induction xs)
  case Nil
  then show ?case by simp
next
  case (Cons a xs)
  have p: "parse_due_date fromiso v = Inl e' \<Longrightarrow> e' = ValueError \<or> e' = AttributeError" for v e'
    by (cases v) (auto split: option.splits)
  have g: "datetime_ge d now = Inl e' \<Longrightarrow> e' = TypeError" for d e'
    by (cases d; cases now) auto
  from Cons show ?case
    by (auto split: if_splits sum.splits dest: p g)
qed

lemma datetime_ge_aware:
  "datetime_ge d (Aware now off) = Inr keep \<longleftrightarrow> (\<exists>t o'. d = Aware t o' \<and> keep = (now \<le> t))"
  by (cases d) auto

lemma due_instant_Some:
  "due_instant fromiso a = Some t \<longleftrightarrow> (\<exists>off. parse_due_date fromiso (due_at a) = Inr (Aware t off))"
  by (auto simp: due_instant_def split: sum.splits pydatetime.splits)

lemma due_instant_absent: "due_at a = JNull \<Longrightarrow> due_instant fromiso a = None"
  by (simp add: due_instant_def)

lemma upcoming_filter_total:
  assumes "\<forall>a \<in> set xs. due_at a \<noteq> JNull \<longrightarrow> due_instant fromiso a \<noteq> None"
  shows "upcoming_filter fromiso (Aware now off) xs = Inr (filter (is_upcoming fromiso now) xs)"
  using assms
proof (induction xs)
  case Nil
  then show ?case by simp
next
  case (Cons a xs)
  then have IH: "upcoming_filter fromiso (Aware now off) xs =
      Inr (filter (is_upcoming fromiso now) xs)"
    by simp
  show ?case
  proof (cases "due_at a = JNull")
    case True
    then have "\<not> is_upcoming fromiso now a"
      by (simp add: is_upcoming_def due_instant_absent)
    with True IH show ?thesis by simp
  next
    case False
    with Cons.prems obtain t where t: "due_instant fromiso a = Some t"
      by auto
    then obtain o' where p: "parse_due_date fromiso (due_at a) = Inr (Aware t o')"
      by (auto simp: due_instant_Some)
    have "is_upcoming fromiso now a = (now \<le> t)"
      using t by (simp add: is_upcoming_def)
    with False IH p show ?thesis by simp
  qed
qed

lemma upcoming_filter_succeeds:
  assumes "upcoming_filter fromiso (Aware now off) xs = Inr up"
  shows "\<forall>a \<in> set xs. due_at a \<noteq> JNull \<longrightarrow> due_instant fromiso a \<noteq> None"
proof (intro ballI impI)
  fix a
  assume "a \<in> set xs" "due_at a \<noteq> JNull"
  from upcoming_filter_parses [OF assms this] obtain d keep where
    "parse_due_date fromiso (due_at a) = Inr d" "datetime_ge d (Aware now off) = Inr keep"
    by blast
  then show "due_instant fromiso a \<noteq> None"
    by (auto simp: datetime_ge_aware due_instant_def)
qed

lemma three_classes_exclusive:
  assumes "due_at a \<noteq> JNull \<longrightarrow> due_instant fromiso a \<noteq> None"
  shows "(is_upcoming fromiso now a \<and> \<not> is_no_due a \<and> \<not> is_past fromiso now a)
       \<or> (\<not> is_upcoming fromiso now a \<and> is_no_due a \<and> \<not> is_past fromiso now a)
       \<or> (\<not> is_upcoming fromiso now a \<and> \<not> is_no_due a \<and> is_past fromiso now a)"
proof (cases "due_at a = JNull")
  case True
  then show ?thesis
    by (simp add: is_upcoming_def is_past_def is_no_due_def due_instant_absent)
next
  case False
  with assms obtain t where "due_instant fromiso a = Some t" by auto
  with False show ?thesis
    by (auto simp: is_upcoming_def is_past_def is_no_due_def)
qed

lemma mset_three_classes:
  assumes "\<forall>a \<in> set xs. due_at a \<noteq> JNull \<longrightarrow> due_instant fromiso a \<noteq> None"
  shows "mset xs = mset (filter (is_upcoming fromiso now) xs) + mset (filter is_no_due xs)
           + mset (filter (is_past fromiso now) xs)"
  using assms
proof (induction xs)
  case Nil
  then show ?case by simp
next
  case (Cons a xs)
  then have IH: "mset xs = mset (filter (is_upcoming fromiso now) xs) + mset (filter is_no_due xs)
           + mset (filter (is_past fromiso now) xs)"
    by simp
  from Cons.prems have "due_at a \<noteq> JNull \<longrightarrow> due_instant fromiso a \<noteq> None"
    by simp
  from three_classes_exclusive [OF this, of now] show ?case
    using IH by auto
qed

text \<open>
  C2, as amended. For every merged list in which each due date that is present parses to
  an aware datetime, the classification does not raise, and each record falls in exactly
  one of three classes: upcoming (due at or after \<open>now\<close>), without a due date, or past;
  the three partition the list, with no overlap and no loss. (By
  \<open>upcoming_filter_succeeds\<close>, on any other list the classification raises.)
\<close>

theorem classification_partitions:
  assumes "\<forall>a \<in> set xs. due_at a \<noteq> JNull \<longrightarrow> due_instant fromiso a \<noteq> None"
  shows "upcoming_filter fromiso (Aware now off) xs = Inr (filter (is_upcoming fromiso now) xs)
       \<and> no_due_filter xs = filter is_no_due xs
       \<and> mset xs = mset (filter (is_upcoming fromiso now) xs) + mset (no_due_filter xs)
           + mset (filter (is_past fromiso now) xs)
       \<and> (\<forall>a \<in> set xs.
            (is_upcoming fromiso now a \<and> \<not> is_no_due a \<and> \<not> is_past fromiso now a)
          \<or> (\<not> is_upcoming fromiso now a \<and> is_no_due a \<and> \<not> is_past fromiso now a)
          \<or> (\<not> is_upcoming fromiso now a \<and> \<not> is_no_due a \<and> is_past fromiso now a))"
proof -
  have nd: "no_due_filter xs = filter is_no_due xs"
    unfolding no_due_filter_def by (rule filter_cong) (simp_all add: is_no_due_def)
  have "\<forall>a \<in> set xs.
            (is_upcoming fromiso now a \<and> \<not> is_no_due a \<and> \<not> is_past fromiso now a)
          \<or> (\<not> is_upcoming fromiso now a \<and> is_no_due a \<and> \<not> is_past fromiso now a)
          \<or> (\<not> is_upcoming fromiso now a \<and> \<not> is_no_due a \<and> is_past fromiso now a)"
    using assms three_classes_exclusive by blast
  with upcoming_filter_total [OF assms, of now off] mset_three_classes [OF assms, of now] nd
  show ?thesis by simp
qed


lemma classification_succeeds_iff:
  "(\<exists>up. upcoming_filter fromiso (Aware now off) xs = Inr up) \<longleftrightarrow>
   (\<forall>a \<in> set xs. due_at a \<noteq> JNull \<longrightarrow> due_instant fromiso a \<noteq> None)"
  using upcoming_filter_succeeds upcoming_filter_total by blast

theorem classification_partitions_witness:
  "list_all (\<lambda>a. due_at a = JNull \<or> due_instant fromisoformat_sample a \<noteq> None) sample_merged
   \<and> upcoming_filter fromisoformat_sample (Aware 1709546400000000 0) sample_merged =
       Inr (filter (is_upcoming fromisoformat_sample 1709546400000000) sample_merged)
   \<and> map assignment_name (filter (is_upcoming fromisoformat_sample 1709546400000000) sample_merged)
       = [JStr ''HW1'', JStr ''Essay'']
   \<and> map assignment_name (no_due_filter sample_merged) = [JStr ''HW2'']
   \<and> map assignment_name (filter (is_past fromisoformat_sample 1709546400000000) sample_merged)
       = [JStr ''Old'']"
proof -
  have h: "\<forall>a \<in> set sample_merged. due_at a \<noteq> JNull \<longrightarrow>
      due_instant fromisoformat_sample a \<noteq> None"
    by (simp add: sample_merged_def due_instant_def fromisoformat_sample_def)
  have up: "map assignment_name
      (filter (is_upcoming fromisoformat_sample 1709546400000000) sample_merged) =
      [JStr ''HW1'', JStr ''Essay'']"
    by (simp add: sample_merged_def is_upcoming_def due_instant_def fromisoformat_sample_def)
  have nd: "map assignment_name (no_due_filter sample_merged) = [JStr ''HW2'']"
    by (simp add: sample_merged_def no_due_filter_def)
  have past: "map assignment_name
      (filter (is_past fromisoformat_sample 1709546400000000) sample_merged) = [JStr ''Old'']"
    by (simp add: sample_merged_def is_past_def due_instant_def fromisoformat_sample_def)
  from classification_partitions [OF h, of 1709546400000000 0]
  have "upcoming_filter fromisoformat_sample (Aware 1709546400000000 0) sample_merged =
       Inr (filter (is_upcoming fromisoformat_sample 1709546400000000) sample_merged)"
    by (rule conjunct1)
  moreover have "list_all (\<lambda>a. due_at a = JNull \<or> due_instant fromisoformat_sample a \<noteq> None)
      sample_merged"
    using h by (auto simp: list_all_iff)
  ultimately show ?thesis using up nd past by blast
qed

theorem classification_counterexample:
  "upcoming_filter fromisoformat_sample (Aware 1709546400000000 0) bad_date_merged =
     Inl ValueError
   \<and> \<not> is_upcoming fromisoformat_sample 1709546400000000 (bad_date_merged ! 2)
   \<and> \<not> is_no_due (bad_date_merged ! 2)
   \<and> \<not> is_past fromisoformat_sample 1709546400000000 (bad_date_merged ! 2)"
  by (simp add: bad_date_merged_def due_instant_def fromisoformat_sample_def
      is_upcoming_def is_past_def is_no_due_def)

text \<open>
  C1, as amended. A merged record whose due-date string is present and is rejected by
  \<^verbatim>\<open>fromisoformat\<close> after the substitution ends the run: the classification raises (a
  \<^verbatim>\<open>ValueError\<close>, unless an earlier record raised first), the run stops right after the
  reading of \<open>now\<close> with that error, and no tab, the one without due dates included, is
  filled.
\<close>

theorem unparseable_due_date_ends_run:
  assumes "fetch_phase w token = Some (Inr xs, tr)"
    and "a \<in> set xs" and "due_at a = JStr s" and "fromisoformat w (replace_Z s) = None"
  shows "\<exists>e. e \<in> {ValueError, TypeError, AttributeError} \<and>
           upcoming_filter (fromisoformat w) (Aware (clock w 0) 0) xs = Inl e \<and>
           fetch_assignments_thread w token = Some (Inl e, tr @ [ClockRead])"
proof -
  let ?now = "Aware (clock w 0) 0"
  have p: "parse_due_date (fromisoformat w) (due_at a) = Inl ValueError"
    using assms(3,4) by simp
  have "\<exists>e. upcoming_filter (fromisoformat w) ?now xs = Inl e"
  proof (cases "upcoming_filter (fromisoformat w) ?now xs")
    case (Inl e)
    then show ?thesis by blast
  next
    case (Inr up)
    from upcoming_filter_parses [OF Inr assms(2)] assms(3) p show ?thesis
      by simp
  qed
  then obtain e where e: "upcoming_filter (fromisoformat w) ?now xs = Inl e"
    by blast
  from upcoming_filter_errors [OF e] have "e \<in> {ValueError, TypeError, AttributeError}" .
  moreover have "fetch_assignments_thread w token = Some (Inl e, tr @ [ClockRead])"
    using assms(1) e by (simp add: fetch_assignments_thread_def classify_and_group_def)
  ultimately show ?thesis using e by blast
qed

lemma bad_date_fetch:
  "fetch_phase (sample_world essay_bad_date) ''tok'' = Some (Inr bad_date_merged, fetch_trace)"
  by code_simp

theorem unparseable_due_date_ends_run_witness:
  "fetch_phase (sample_world essay_bad_date) ''tok'' = Some (Inr bad_date_merged, fetch_trace)
   \<and> bad_date_merged ! 2 \<in> set bad_date_merged
   \<and> due_at (bad_date_merged ! 2) = JStr ''not-a-date''
   \<and> fromisoformat (sample_world essay_bad_date) (replace_Z ''not-a-date'') = None
   \<and> (\<exists>e. fetch_assignments_thread (sample_world essay_bad_date) ''tok'' =
             Some (Inl e, fetch_trace @ [ClockRead]))"
proof -
  have a: "bad_date_merged ! 2 \<in> set bad_date_merged"
    by (simp add: bad_date_merged_def)
  have d: "due_at (bad_date_merged ! 2) = JStr ''not-a-date''"
    by (simp add: bad_date_merged_def)
  have f: "fromisoformat (sample_world essay_bad_date) (replace_Z ''not-a-date'') = None"
    by (simp add: sample_world_def fromisoformat_sample_def)
  from unparseable_due_date_ends_run [OF bad_date_fetch a d f] bad_date_fetch a d f
  show ?thesis by blast
qed

theorem unparseable_due_date_counterexample:
  "fetch_assignments_thread (sample_world essay_bad_date) ''tok'' =
     Some (Inl ValueError, fetch_trace @ [ClockRead])"
  by code_simp

section \<open>Sorting the upcoming records\<close>

lemma insort_key_map:
  "insort_key g (m x) (map m ys) = map m (insort_key (\<lambda>y. g (m y)) x ys)"
  by (induction ys) simp_all

lemma sort_key_map: "sort_key g (map m xs) = map m (sort_key (\<lambda>y. g (m y)) xs)"
  by (induction xs) (simp_all add: insort_key_map)

lemma sort_key_decorated:
  "map snd (sort_key (\<lambda>p. k (fst p)) (zip (map h xs) xs)) = sort_key (\<lambda>a. k (h a)) xs"
proof -
  have "zip (map h xs) xs = map (\<lambda>a. (h a, a)) xs"
    by (induction xs) simp_all
  then show ?thesis
    by (simp add: sort_key_map comp_def)
qed

lemma insort_key_agree:
  "f x = g x \<Longrightarrow> \<forall>y \<in> set ys. f y = g y \<Longrightarrow> insort_key f x ys = insort_key g x ys"
  by (induction ys) simp_all

lemma set_sort_key: "set (sort_key f xs) = set xs"
  by (induction xs) (simp_all add: set_insort_key)

lemma sort_key_agree:
  "\<forall>a \<in> set xs. f a = g a \<Longrightarrow> sort_key f xs = sort_key g xs"
proof (induction xs)
  case Nil
  then show ?case by simp
next
  case (Cons x xs)
  then have "sort_key f xs = sort_key g xs" by simp
  moreover have "insort_key f x (sort_key g xs) = insort_key g x (sort_key g xs)"
    using Cons.prems by (intro insort_key_agree) (simp_all add: set_sort_key)
  ultimately show ?case by simp
qed

lemma parse_keys_map:
  assumes "\<forall>a \<in> set xs. \<exists>d. parse_due_date fromiso (due_at a) = Inr d"
  shows "parse_keys fromiso xs = Inr (map (\<lambda>a. projr (parse_due_date fromiso (due_at a))) xs)"
  using assms by (induction xs) auto

lemma sort_by_due_aware:
  assumes "\<forall>a \<in> set xs. \<exists>t off. parse_due_date fromiso (due_at a) = Inr (Aware t off)"
  shows "sort_by_due fromiso xs = Inr (sort_key (due_key fromiso) xs)"
proof -
  let ?h = "\<lambda>a. projr (parse_due_date fromiso (due_at a))"
  from assms have "\<forall>a \<in> set xs. \<exists>d. parse_due_date fromiso (due_at a) = Inr d"
    by blast
  then have ks: "parse_keys fromiso xs = Inr (map ?h xs)"
    by (rule parse_keys_map)
  have aware: "list_all is_aware (map ?h xs)"
    using assms by (auto simp: list_all_iff)
  have "datetime_key (?h a) = due_key fromiso a" if "a \<in> set xs" for a
    using assms that by (auto simp: due_key_def)
  then have key: "sort_key (\<lambda>a. datetime_key (?h a)) xs = sort_key (due_key fromiso) xs"
    by (intro sort_key_agree) simp
  show ?thesis
    using ks aware key by (simp add: sort_by_due_def sort_key_decorated)
qed


lemma upcoming_filter_aware:
  assumes "upcoming_filter fromiso (Aware now off) xs = Inr up"
  shows "up = filter (is_upcoming fromiso now) xs"
    and "\<forall>a \<in> set up. \<exists>t o'. parse_due_date fromiso (due_at a) = Inr (Aware t o')"
proof -
  from upcoming_filter_total [OF upcoming_filter_succeeds [OF assms], of now off] assms
  show up: "up = filter (is_upcoming fromiso now) xs" by simp
  show "\<forall>a \<in> set up. \<exists>t o'. parse_due_date fromiso (due_at a) = Inr (Aware t o')"
  proof
    fix a
    assume "a \<in> set up"
    with up have "is_upcoming fromiso now a" by simp
    then obtain t where "due_instant fromiso a = Some t"
      by (auto simp: is_upcoming_def split: option.splits)
    then show "\<exists>t o'. parse_due_date fromiso (due_at a) = Inr (Aware t o')"
      by (auto simp: due_instant_Some)
  qed
qed




section \<open>Courses without a name\<close>

lemma tag_assignments_tagged_as:
  "tag_assignments cn assignments = Inr tagged \<Longrightarrow> list_all2 (tagged_as cn) assignments tagged"
  by (induction assignments arbitrary: tagged)
    (auto simp: tagged_as_def split: option.splits sum.splits)

lemma tag_assignments_succeeds:
  "(\<exists>tagged. tag_assignments cn assignments = Inr tagged) \<longleftrightarrow>
   (\<forall>a \<in> set assignments. map_of a ''name'' \<noteq> None)"
  by (induction assignments) (auto split: option.splits sum.splits)

lemma course_loop_prefix:
  "course_loop w hdrs idx courses acc tr = Some (Inr out, tr') \<Longrightarrow> \<exists>more. out = acc @ more"
proof (induction courses arbitrary: idx acc tr)
  case Nil
  then show ?case by simp
next
  case (Cons course rest)
  from Cons.prems obtain cid where cid: "map_of course ''id'' = Some cid"
    by (cases "map_of course ''id''") simp_all
  let ?u = "BASE_URL @ ''/courses/'' @ py_str cid @ ''/assignments''"
  from Cons.prems cid obtain assignments tr1 where
    pages: "get_all_pages (get_array w) ?u hdrs None tr = Some (Inr assignments, tr1)"
    by (auto split: option.splits sum.splits)
  from Cons.prems cid pages obtain tagged where
    tagged: "tag_assignments (course_display_name course) assignments = Inr tagged"
    by (auto split: sum.splits)
  from Cons.prems cid pages tagged have
    "course_loop w hdrs (Suc idx) rest (acc @ tagged) (tr1 @ [ProgressValue idx]) =
       Some (Inr out, tr')"
    by simp
  from Cons.IH [OF this] obtain more where "out = (acc @ tagged) @ more"
    by blast
  then show ?case by simp
qed

text \<open>
  C9. A course record without a \<^verbatim>\<open>name\<close> key does not end the run and loses nothing.
  Whenever the loop over such a course and the courses after it succeeds, its result is the
  merge buffer so far, then one record for each assignment fetched for the course, each
  tagged \<^verbatim>\<open>Unnamed Course\<close> and carrying the assignment's own name and due date, then
  the records of the later courses. And whenever the course's assignments are fetched and
  each has a name, the loop goes on to the next course with exactly those records added.
\<close>

theorem unnamed_course_fallback:
  assumes "map_of course ''name'' = None"
  shows "(\<forall>out tr'.
            course_loop w hdrs idx (course # rest) acc tr = Some (Inr out, tr') \<longrightarrow>
            (\<exists>cid assignments tr1 tagged more.
               map_of course ''id'' = Some cid \<and>
               get_all_pages (get_array w)
                 (BASE_URL @ ''/courses/'' @ py_str cid @ ''/assignments'') hdrs None tr =
                 Some (Inr assignments, tr1) \<and>
               list_all2 (tagged_as (JStr ''Unnamed Course'')) assignments tagged \<and>
               out = acc @ tagged @ more \<and>
               course_loop w hdrs (Suc idx) rest (acc @ tagged) (tr1 @ [ProgressValue idx]) =
                 Some (Inr out, tr')))
       \<and> (\<forall>cid assignments tr1.
            map_of course ''id'' = Some cid \<and>
            get_all_pages (get_array w)
              (BASE_URL @ ''/courses/'' @ py_str cid @ ''/assignments'') hdrs None tr =
              Some (Inr assignments, tr1) \<and>
            (\<forall>a \<in> set assignments. map_of a ''name'' \<noteq> None) \<longrightarrow>
            (\<exists>tagged.
               list_all2 (tagged_as (JStr ''Unnamed Course'')) assignments tagged \<and>
               course_loop w hdrs idx (course # rest) acc tr =
                 course_loop w hdrs (Suc idx) rest (acc @ tagged) (tr1 @ [ProgressValue idx])))"
proof (intro conjI allI impI)
  fix out tr'
  assume run: "course_loop w hdrs idx (course # rest) acc tr = Some (Inr out, tr')"
  have n: "course_display_name course = JStr ''Unnamed Course''"
    using assms by (simp add: course_display_name_def)
  from run obtain cid where cid: "map_of course ''id'' = Some cid"
    by (cases "map_of course ''id''") simp_all
  let ?u = "BASE_URL @ ''/courses/'' @ py_str cid @ ''/assignments''"
  from run cid obtain assignments tr1 where
    pages: "get_all_pages (get_array w) ?u hdrs None tr = Some (Inr assignments, tr1)"
    by (auto split: option.splits sum.splits)
  from run cid pages obtain tagged where
    tagged: "tag_assignments (JStr ''Unnamed Course'') assignments = Inr tagged"
    by (auto simp: n split: sum.splits)
  from run cid pages tagged have next_step:
    "course_loop w hdrs (Suc idx) rest (acc @ tagged) (tr1 @ [ProgressValue idx]) =
       Some (Inr out, tr')"
    by (simp add: n)
  from course_loop_prefix [OF next_step] obtain more where "out = (acc @ tagged) @ more"
    by blast
  then have "out = acc @ tagged @ more" by simp
  with cid pages tag_assignments_tagged_as [OF tagged] next_step
  show "\<exists>cid assignments tr1 tagged more.
               map_of course ''id'' = Some cid \<and>
               get_all_pages (get_array w)
                 (BASE_URL @ ''/courses/'' @ py_str cid @ ''/assignments'') hdrs None tr =
                 Some (Inr assignments, tr1) \<and>
               list_all2 (tagged_as (JStr ''Unnamed Course'')) assignments tagged \<and>
               out = acc @ tagged @ more \<and>
               course_loop w hdrs (Suc idx) rest (acc @ tagged) (tr1 @ [ProgressValue idx]) =
                 Some (Inr out, tr')"
    by blast
next
  fix cid assignments tr1
  assume h: "map_of course ''id'' = Some cid \<and>
            get_all_pages (get_array w)
              (BASE_URL @ ''/courses/'' @ py_str cid @ ''/assignments'') hdrs None tr =
              Some (Inr assignments, tr1) \<and>
            (\<forall>a \<in> set assignments. map_of a ''name'' \<noteq> None)"
  have n: "course_display_name course = JStr ''Unnamed Course''"
    using assms by (simp add: course_display_name_def)
  from h tag_assignments_succeeds [of "JStr ''Unnamed Course''" assignments] obtain tagged where
    tagged: "tag_assignments (JStr ''Unnamed Course'') assignments = Inr tagged"
    by blast
  from h tagged have "course_loop w hdrs idx (course # rest) acc tr =
      course_loop w hdrs (Suc idx) rest (acc @ tagged) (tr1 @ [ProgressValue idx])"
    by (simp add: n)
  with tag_assignments_tagged_as [OF tagged]
  show "\<exists>tagged.
               list_all2 (tagged_as (JStr ''Unnamed Course'')) assignments tagged \<and>
               course_loop w hdrs idx (course # rest) acc tr =
                 course_loop w hdrs (Suc idx) rest (acc @ tagged) (tr1 @ [ProgressValue idx])"
    by blast
qed

lemma nameless_then_calc_run:
  "course_loop (sample_world essay_due_now) (auth_headers ''tok'') 1 nameless_then_calc
     earlier_merged [] =
     Some (Inr [\<lparr>course_name = JStr ''Earlier'', assignment_name = JStr ''Lab'', due_at = JNull\<rparr>,
                \<lparr>course_name = JStr ''Unnamed Course'', assignment_name = JStr ''Essay'',
                 due_at = JStr ''2024-03-04T10:00:00Z''\<rparr>,
                \<lparr>course_name = JStr ''Calc'', assignment_name = JStr ''HW1'',
                 due_at = JStr ''2024-03-07T23:59:00Z''\<rparr>,
                \<lparr>course_name = JStr ''Calc'', assignment_name = JStr ''HW2'', due_at = JNull\<rparr>],
           [Request \<lparr>url = ''https://canvas.sfu.ca/api/v1/courses/2/assignments'',
                     headers = auth_headers ''tok'', params = None\<rparr>,
            ProgressValue 1,
            Request \<lparr>url = ''https://canvas.sfu.ca/api/v1/courses/1/assignments'',
                     headers = auth_headers ''tok'', params = None\<rparr>,
            ProgressValue 2])"
  by code_simp

theorem unnamed_course_fallback_witness:
  "map_of [(''id'', JInt 2)] ''name'' = None
   \<and> course_loop (sample_world essay_due_now) (auth_headers ''tok'') 1
       ([(''id'', JInt 2)] # [[(''id'', JInt 1), (''name'', JStr ''Calc'')]]) earlier_merged [] =
       Some (Inr [\<lparr>course_name = JStr ''Earlier'', assignment_name = JStr ''Lab'', due_at = JNull\<rparr>,
                \<lparr>course_name = JStr ''Unnamed Course'', assignment_name = JStr ''Essay'',
                 due_at = JStr ''2024-03-04T10:00:00Z''\<rparr>,
                \<lparr>course_name = JStr ''Calc'', assignment_name = JStr ''HW1'',
                 due_at = JStr ''2024-03-07T23:59:00Z''\<rparr>,
                \<lparr>course_name = JStr ''Calc'', assignment_name = JStr ''HW2'', due_at = JNull\<rparr>],
           [Request \<lparr>url = ''https://canvas.sfu.ca/api/v1/courses/2/assignments'',
                     headers = auth_headers ''tok'', params = None\<rparr>,
            ProgressValue 1,
            Request \<lparr>url = ''https://canvas.sfu.ca/api/v1/courses/1/assignments'',
                     headers = auth_headers ''tok'', params = None\<rparr>,
            ProgressValue 2])
   \<and> (\<exists>assignments tagged more.
         list_all2 (tagged_as (JStr ''Unnamed Course'')) assignments tagged \<and>
         [\<lparr>course_name = JStr ''Earlier'', assignment_name = JStr ''Lab'', due_at = JNull\<rparr>,
          \<lparr>course_name = JStr ''Unnamed Course'', assignment_name = JStr ''Essay'',
           due_at = JStr ''2024-03-04T10:00:00Z''\<rparr>,
          \<lparr>course_name = JStr ''Calc'', assignment_name = JStr ''HW1'',
           due_at = JStr ''2024-03-07T23:59:00Z''\<rparr>,
          \<lparr>course_name = JStr ''Calc'', assignment_name = JStr ''HW2'', due_at = JNull\<rparr>] =
         earlier_merged @ tagged @ more)"
proof -
  have h: "map_of [(''id'', JInt 2)] ''name'' = None"
    by simp
  note r = nameless_then_calc_run [unfolded nameless_then_calc_def]
  from unnamed_course_fallback [OF h, of "sample_world essay_due_now" "auth_headers ''tok''" 1
      "[[(''id'', JInt 1), (''name'', JStr ''Calc'')]]" earlier_merged "[]"] r
  have "\<exists>assignments tagged more.
         list_all2 (tagged_as (JStr ''Unnamed Course'')) assignments tagged \<and>
         [\<lparr>course_name = JStr ''Earlier'', assignment_name = JStr ''Lab'', due_at = JNull\<rparr>,
          \<lparr>course_name = JStr ''Unnamed Course'', assignment_name = JStr ''Essay'',
           due_at = JStr ''2024-03-04T10:00:00Z''\<rparr>,
          \<lparr>course_name = JStr ''Calc'', assignment_name = JStr ''HW1'',
           due_at = JStr ''2024-03-07T23:59:00Z''\<rparr>,
          \<lparr>course_name = JStr ''Calc'', assignment_name = JStr ''HW2'', due_at = JNull\<rparr>] =
         earlier_merged @ tagged @ more"
    by blast
  with h r show ?thesis by blast
qed

section \<open>The trace of the fetch phase\<close>

lemma progress_values_append:
  "progress_values (xs @ ys) = progress_values xs @ progress_values ys"
  by (induction xs rule: progress_values.induct) simp_all

lemma progress_values_requests: "list_all is_request evs \<Longrightarrow> progress_values evs = []"
  by (induction evs rule: progress_values.induct) simp_all

lemma requests_no_clock: "list_all is_request evs \<Longrightarrow> ClockRead \<notin> set evs"
  by (induction evs) auto

lemma stops_at_refusal_append:
  "list_all (request_ok get) xs \<Longrightarrow> stops_at_refusal get out evs \<Longrightarrow>
   stops_at_refusal get out (xs @ evs)"
  by (auto simp: stops_at_refusal_def intro: halted_on_append split: if_splits)

lemma get_all_pages_trace:
  assumes "get_all_pages get u hdrs ps tr = Some (out, tr')"
  shows "\<exists>evs. tr' = tr @ evs \<and> list_all is_request evs \<and> stops_at_refusal get out evs"
proof -
  from assms have "get_all_pages_loop get hdrs (Some u) ps [] tr = Some (out, tr')"
    by (simp add: get_all_pages_def)
  from get_all_pages_loop_trace [OF this] obtain evs where
    evs: "tr' = tr @ evs" "list_all is_request evs"
      "case out of Inr _ \<Rightarrow> list_all (request_ok get) evs
       | Inl e \<Rightarrow> e = HTTPError \<and> halted_on get evs"
    by auto
  from evs(3) have "stops_at_refusal get out evs"
    by (cases out) (simp_all add: stops_at_refusal_def)
  with evs(1,2) show ?thesis by blast
qed

lemma tag_assignments_errors: "tag_assignments cn xs = Inl e \<Longrightarrow> e = KeyError"
  by (induction xs) (auto split: option.splits sum.splits)

lemma course_loop_trace:
  "course_loop w hdrs idx courses all_assignments tr = Some (out, tr') \<Longrightarrow>
   \<exists>evs k. tr' = tr @ evs \<and> ClockRead \<notin> set evs \<and>
     progress_values evs = [idx..<idx + k] \<and> k \<le> length courses \<and>
     ((\<exists>xs. out = Inr xs) \<longrightarrow> k = length courses) \<and>
     stops_at_refusal (get_array w) out evs"
proof (induction courses arbitrary: idx all_assignments tr)
  case Nil
  then have "tr' = tr @ []" "out = Inr all_assignments" by simp_all
  then show ?case
    by (intro exI [of _ "[]"] exI [of _ 0]) (simp add: stops_at_refusal_def)
next
  case (Cons course rest)
  show ?case
  proof (cases "map_of course ''id''")
    case None
    with Cons.prems have "tr' = tr @ []" "out = Inl KeyError" by simp_all
    then show ?thesis
      by (intro exI [of _ "[]"] exI [of _ 0]) (simp add: stops_at_refusal_def)
  next
    case (Some course_id)
    let ?u = "BASE_URL @ ''/courses/'' @ py_str course_id @ ''/assignments''"
    from Cons.prems Some obtain r tr1 where
      pages: "get_all_pages (get_array w) ?u hdrs None tr = Some (r, tr1)"
      by (cases "get_all_pages (get_array w) ?u hdrs None tr") auto
    from get_all_pages_trace [OF pages] obtain evs1 where
      evs1: "tr1 = tr @ evs1" "list_all is_request evs1"
        "stops_at_refusal (get_array w) r evs1"
      by blast
    have pv1: "progress_values evs1 = []"
      using evs1(2) by (rule progress_values_requests)
    have nc1: "ClockRead \<notin> set evs1"
      using evs1(2) by (rule requests_no_clock)
    show ?thesis
    proof (cases r)
      case (Inl e)
      with Cons.prems Some pages have o: "out = Inl e" "tr' = tr1" by simp_all
      from evs1(3) Inl o have "stops_at_refusal (get_array w) out evs1"
        by (simp add: stops_at_refusal_def)
      with o evs1(1) pv1 nc1 show ?thesis
        by (intro exI [of _ evs1] exI [of _ 0]) simp
    next
      case (Inr assignments)
      with evs1(3) have ok1: "list_all (request_ok (get_array w)) evs1"
        by (simp add: stops_at_refusal_def)
      show ?thesis
      proof (cases "tag_assignments (course_display_name course) assignments")
        case (Inl e)
        from tag_assignments_errors [OF Inl] have "e = KeyError" .
        with Inl Cons.prems Some pages Inr have o: "out = Inl KeyError" "tr' = tr1"
          by simp_all
        with ok1 evs1(1) pv1 nc1 show ?thesis
          by (intro exI [of _ evs1] exI [of _ 0]) (simp add: stops_at_refusal_def)
      next
        case tagged: (Inr tagged)
        with Cons.prems Some pages Inr have
          "course_loop w hdrs (Suc idx) rest (all_assignments @ tagged)
             (tr1 @ [ProgressValue idx]) = Some (out, tr')"
          by simp
        from Cons.IH [OF this] obtain evs k where
          IH: "tr' = (tr1 @ [ProgressValue idx]) @ evs" "ClockRead \<notin> set evs"
            "progress_values evs = [Suc idx..<Suc idx + k]" "k \<le> length rest"
            "(\<exists>xs. out = Inr xs) \<longrightarrow> k = length rest"
            "stops_at_refusal (get_array w) out evs"
          by blast
        let ?evs = "evs1 @ ProgressValue idx # evs"
        have "tr' = tr @ ?evs"
          using IH(1) evs1(1) by simp
        moreover have "ClockRead \<notin> set ?evs"
          using nc1 IH(2) by simp
        moreover have "progress_values ?evs = [idx..<idx + Suc k]"
          using pv1 IH(3) by (simp add: progress_values_append upt_conv_Cons)
        moreover have "Suc k \<le> length (course # rest)"
          using IH(4) by simp
        moreover have "(\<exists>xs. out = Inr xs) \<longrightarrow> Suc k = length (course # rest)"
          using IH(5) by simp
        moreover have "stops_at_refusal (get_array w) out ?evs"
        proof -
          have "list_all (request_ok (get_array w)) (evs1 @ [ProgressValue idx])"
            using ok1 by simp
          from stops_at_refusal_append [OF this IH(6)] show ?thesis by simp
        qed
        ultimately show ?thesis by blast
      qed
    qed
  qed
qed

lemma progress_values_clock: "progress_values (replicate n ClockRead) = []"
  by (induction n) simp_all

lemma fetch_phase_trace:
  assumes "fetch_phase w token = Some (out, tr)" and "token \<noteq> []"
  shows "\<exists>evs k. tr = Request (identity_request token) # evs \<and> ClockRead \<notin> set tr \<and>
     progress_values tr = [1..<Suc k] \<and>
     (\<not> status_ok (get_object w (identity_request token)) \<longrightarrow> out = Inl HTTPError \<and> evs = []) \<and>
     (status_ok (get_object w (identity_request token)) \<longrightarrow>
        stops_at_refusal (get_array w) out evs) \<and>
     (\<forall>courses. enrollments w token = Some courses \<longrightarrow> k \<le> length courses) \<and>
     ((\<exists>xs. out = Inr xs) \<longrightarrow> enrollments w token \<noteq> None \<and>
        (\<forall>courses. enrollments w token = Some courses \<longrightarrow> k = length courses))"
proof (cases "status_ok (get_object w (identity_request token))")
  case False
  with assms have "out = Inl HTTPError" "tr = [Request (identity_request token)]"
    by (simp_all add: fetch_phase_def)
  with False show ?thesis
    by (intro exI [of _ "[]"] exI [of _ 0]) simp
next
  case ok: True
  let ?rq = "identity_request token"
  show ?thesis
  proof (cases "map_of (json (get_object w ?rq)) ''id''")
    case None
    with assms ok have "out = Inl KeyError" "tr = [Request ?rq]"
      by (simp_all add: fetch_phase_def)
    with ok None show ?thesis
      by (intro exI [of _ "[]"] exI [of _ 0]) (simp add: stops_at_refusal_def enrollments_def)
  next
    case (Some user_id)
    from assms ok Some obtain r tr1 where
      fc: "fetch_courses w token user_id = Some (r, tr1)"
      by (cases "fetch_courses w token user_id") (auto simp: fetch_phase_def)
    then have "get_all_pages (get_array w) (BASE_URL @ ''/users/'' @ py_str user_id @ ''/courses'')
        (auth_headers token) (Some [(''enrollment_state'', ''active'')]) [Request ?rq] =
        Some (r, tr1)"
      by (simp add: fetch_courses_def)
    from get_all_pages_trace [OF this] obtain evs1 where
      evs1: "tr1 = [Request ?rq] @ evs1" "list_all is_request evs1"
        "stops_at_refusal (get_array w) r evs1"
      by blast
    have pv1: "progress_values evs1 = []"
      using evs1(2) by (rule progress_values_requests)
    have nc1: "ClockRead \<notin> set evs1"
      using evs1(2) by (rule requests_no_clock)
    show ?thesis
    proof (cases r)
      case (Inl e)
      with assms ok Some fc have o: "out = Inl e" "tr = tr1"
        by (simp_all add: fetch_phase_def)
      have en: "enrollments w token = None"
        using Some fc Inl by (simp add: enrollments_def)
      have "stops_at_refusal (get_array w) out evs1"
        using evs1(3) Inl o by (simp add: stops_at_refusal_def)
      with o evs1(1) pv1 nc1 ok en show ?thesis
        by (intro exI [of _ evs1] exI [of _ 0]) simp
    next
      case (Inr courses)
      have en: "enrollments w token = Some courses"
        using Some fc Inr by (simp add: enrollments_def)
      from evs1(3) Inr have ok1: "list_all (request_ok (get_array w)) evs1"
        by (simp add: stops_at_refusal_def)
      from assms ok Some fc Inr have
        "course_loop w (auth_headers token) 1 courses []
           (tr1 @ [ProgressMaximum (max (length courses) 1)]) = Some (out, tr)"
        by (simp add: fetch_phase_def)
      from course_loop_trace [OF this] obtain evs k where
        L: "tr = (tr1 @ [ProgressMaximum (max (length courses) 1)]) @ evs"
          "ClockRead \<notin> set evs" "progress_values evs = [1..<1 + k]" "k \<le> length courses"
          "(\<exists>xs. out = Inr xs) \<longrightarrow> k = length courses"
          "stops_at_refusal (get_array w) out evs"
        by blast
      let ?evs = "evs1 @ ProgressMaximum (max (length courses) 1) # evs"
      have 1: "tr = Request ?rq # ?evs"
        using L(1) evs1(1) by simp
      have 2: "ClockRead \<notin> set tr"
        using 1 nc1 L(2) by simp
      have 3: "progress_values tr = [1..<Suc k]"
        using 1 pv1 L(3) by (simp add: progress_values_append)
      have 4: "stops_at_refusal (get_array w) out ?evs"
      proof -
        have "list_all (request_ok (get_array w))
            (evs1 @ [ProgressMaximum (max (length courses) 1)])"
          using ok1 by simp
        from stops_at_refusal_append [OF this L(6)] show ?thesis by simp
      qed
      from 1 2 3 4 ok en L(4,5) show ?thesis
        by (intro exI [of _ ?evs] exI [of _ k]) simp
    qed
  qed
qed

lemma parse_due_date_errors:
  "parse_due_date fromiso v = Inl e \<Longrightarrow> e = ValueError \<or> e = AttributeError"
  by (cases v) (auto split: option.splits)

lemma parse_keys_errors:
  "parse_keys fromiso xs = Inl e \<Longrightarrow> e = ValueError \<or> e = AttributeError"
  by (induction xs) (auto split: sum.splits dest: parse_due_date_errors)

lemma sort_by_due_errors: "sort_by_due fromiso xs = Inl e \<Longrightarrow> e \<noteq> HTTPError"
  by (auto simp: sort_by_due_def split: sum.splits if_splits dest: parse_keys_errors)

lemma astimezone_errors: "astimezone tz t = Inl e \<Longrightarrow> e = OverflowError"
  by (auto simp: astimezone_def split: if_splits)

lemma astimezone_value: "astimezone tz t = Inr dl \<Longrightarrow> dl = t + tz t"
  by (auto simp: astimezone_def split: if_splits)

lemma group_loop_errors:
  "group_loop fromiso tz clk k items g tr = (Inl e, tr') \<Longrightarrow> e \<noteq> HTTPError"
proof (induction items arbitrary: k g tr)
  case Nil
  then show ?case by simp
next
  case (Cons item rest)
  show ?case
  proof (cases "parse_due_date fromiso (due_at item)")
    case (Inl e')
    with Cons.prems have "e = e'" by simp
    with parse_due_date_errors [OF Inl] show ?thesis by auto
  next
    case (Inr d)
    show ?thesis
    proof (cases d)
      case (Naive t)
      with Inr Cons.prems show ?thesis by simp
    next
      case (Aware t off)
      show ?thesis
      proof (cases "astimezone tz t")
        case (Inl e')
        with Aware Inr Cons.prems have "e = e'" by simp
        with astimezone_errors [OF Inl] show ?thesis by simp
      next
        case dl: (Inr dl)
        with Aware Inr Cons.prems obtain g1 where
          "group_loop fromiso tz clk (Suc k) rest g1 (tr @ [ClockRead]) = (Inl e, tr')"
          by (auto simp: Let_def)
        then show ?thesis by (rule Cons.IH)
      qed
    qed
  qed
qed

lemma group_loop_aware:
  "\<forall>a \<in> set items. \<exists>t off. parse_due_date fromiso (due_at a) = Inr (Aware t off) \<Longrightarrow>
   group_loop fromiso tz clk k items g tr = (Inl e, tr') \<Longrightarrow> e = OverflowError"
proof (induction items arbitrary: k g tr)
  case Nil
  then show ?case by simp
next
  case (Cons item rest)
  from Cons.prems(1) obtain t off where
    p: "parse_due_date fromiso (due_at item) = Inr (Aware t off)"
    by auto
  show ?case
  proof (cases "astimezone tz t")
    case (Inl e')
    with p Cons.prems(2) have "e = e'" by simp
    with astimezone_errors [OF Inl] show ?thesis by simp
  next
    case (Inr dl)
    with p Cons.prems(2) obtain g1 where
      "group_loop fromiso tz clk (Suc k) rest g1 (tr @ [ClockRead]) = (Inl e, tr')"
      by (auto simp: Let_def)
    with Cons.prems(1) show ?thesis
      by (intro Cons.IH) simp_all
  qed
qed

lemma group_loop_trace_success:
  "group_loop fromiso tz clk k items g tr = (Inr g', tr') \<Longrightarrow>
   tr' = tr @ replicate (length items) ClockRead"
proof (induction items arbitrary: k g tr)
  case Nil
  then show ?case by simp
next
  case (Cons item rest)
  from Cons.prems obtain t off dl where
    p: "parse_due_date fromiso (due_at item) = Inr (Aware t off)"
    and a: "astimezone tz t = Inr dl"
    by (auto split: sum.splits pydatetime.splits)
  with Cons.prems obtain g1 where
    "group_loop fromiso tz clk (Suc k) rest g1 (tr @ [ClockRead]) = (Inr g', tr')"
    by (auto simp: Let_def)
  from Cons.IH [OF this] show ?case
    by (simp add: replicate_app_Cons_same)
qed

lemma classify_and_group_trace:
  assumes "classify_and_group w xs tr0 = (out, tr)"
  shows "(\<exists>n. tr = tr0 @ replicate (Suc n) ClockRead) \<and> out \<noteq> Inl HTTPError"
proof (cases "upcoming_filter (fromisoformat w) (Aware (clock w 0) 0) xs")
  case (Inl e)
  with assms have "out = Inl e" "tr = tr0 @ replicate (Suc 0) ClockRead"
    by (simp_all add: classify_and_group_def)
  with upcoming_filter_errors [OF Inl] show ?thesis by blast
next
  case up: (Inr up)
  show ?thesis
  proof (cases "sort_by_due (fromisoformat w) up")
    case (Inl e)
    with up assms have "out = Inl e" "tr = tr0 @ replicate (Suc 0) ClockRead"
      by (simp_all add: classify_and_group_def)
    with sort_by_due_errors [OF Inl] show ?thesis by blast
  next
    case (Inr s)
    obtain r tr' where
      g: "group_loop (fromisoformat w) (local_zone w) (clock w) 1 s
            (map (\<lambda>day. (day, [])) day_tabs) (tr0 @ [ClockRead]) = (r, tr')"
      by (cases "group_loop (fromisoformat w) (local_zone w) (clock w) 1 s
            (map (\<lambda>day. (day, [])) day_tabs) (tr0 @ [ClockRead])")
    from group_loop_trace [OF g] obtain n where
      n: "tr' = (tr0 @ [ClockRead]) @ replicate n ClockRead"
      by blast
    have tr: "tr = tr'"
      using assms up Inr g by (cases r) (simp_all add: classify_and_group_def)
    have out: "out \<noteq> Inl HTTPError"
    proof (cases r)
      case (Inl e)
      with assms up Inr g have "out = Inl e" by (simp add: classify_and_group_def)
      with group_loop_errors g Inl show ?thesis by fastforce
    next
      case r: (Inr g')
      with assms up Inr g show ?thesis by (auto simp: classify_and_group_def)
    qed
    have "tr = tr0 @ replicate (Suc n) ClockRead"
      using tr n by simp
    with out show ?thesis by blast
  qed
qed

lemma run_token: "fetch_assignments_thread w token = Some (Inr res, tr) \<Longrightarrow> token \<noteq> []"
  by (auto simp: fetch_assignments_thread_def fetch_phase_def)


lemma fetch_phase_no_clock:
  assumes "fetch_phase w token = Some (out, tr)"
  shows "ClockRead \<notin> set tr"
proof (cases "token = []")
  case True
  with assms show ?thesis by (simp add: fetch_phase_def)
next
  case False
  from fetch_phase_trace [OF assms False] obtain evs k where
    *: "tr = Request (identity_request token) # evs \<and> ClockRead \<notin> set tr \<and>
     progress_values tr = [1..<Suc k] \<and>
     (\<not> status_ok (get_object w (identity_request token)) \<longrightarrow> out = Inl HTTPError \<and> evs = []) \<and>
     (status_ok (get_object w (identity_request token)) \<longrightarrow>
        stops_at_refusal (get_array w) out evs) \<and>
     (\<forall>courses. enrollments w token = Some courses \<longrightarrow> k \<le> length courses) \<and>
     ((\<exists>xs. out = Inr xs) \<longrightarrow> enrollments w token \<noteq> None \<and>
        (\<forall>courses. enrollments w token = Some courses \<longrightarrow> k = length courses))"
    by (elim exE)
  then show ?thesis by (elim conjE)
qed

lemma fetch_phase_progress:
  assumes "fetch_phase w token = Some (out, tr)" and "token \<noteq> []"
  shows "\<exists>k. progress_values tr = [1..<Suc k] \<and>
     (\<forall>courses. enrollments w token = Some courses \<longrightarrow> k \<le> length courses) \<and>
     ((\<exists>xs. out = Inr xs) \<longrightarrow> enrollments w token \<noteq> None \<and>
        (\<forall>courses. enrollments w token = Some courses \<longrightarrow> k = length courses))"
proof -
  from fetch_phase_trace [OF assms] obtain evs k where
    *: "tr = Request (identity_request token) # evs \<and> ClockRead \<notin> set tr \<and>
     progress_values tr = [1..<Suc k] \<and>
     (\<not> status_ok (get_object w (identity_request token)) \<longrightarrow> out = Inl HTTPError \<and> evs = []) \<and>
     (status_ok (get_object w (identity_request token)) \<longrightarrow>
        stops_at_refusal (get_array w) out evs) \<and>
     (\<forall>courses. enrollments w token = Some courses \<longrightarrow> k \<le> length courses) \<and>
     ((\<exists>xs. out = Inr xs) \<longrightarrow> enrollments w token \<noteq> None \<and>
        (\<forall>courses. enrollments w token = Some courses \<longrightarrow> k = length courses))"
    by (elim exE)
  then show ?thesis
    by (intro exI [of _ k]) (elim conjE, intro conjI, assumption+)
qed


section \<open>Progress ticks\<close>

text \<open>
  C4. In every run the values given to the progress bar are 1, 2, ... up to some \<open>k\<close>,
  each one more than the one before, and \<open>k\<close> never exceeds the number of enrollments.
  In a run that succeeds \<open>k\<close> is that number: the bar is set exactly once per enrollment,
  however many assignments the enrollment holds, and not at all when there is none.
\<close>

theorem progress_once_per_enrollment:
  assumes "fetch_assignments_thread w token = Some (out, tr)"
  shows "(\<exists>k. progress_values tr = [1..<Suc k] \<and>
              (\<forall>courses. enrollments w token = Some courses \<longrightarrow> k \<le> length courses))
       \<and> ((\<exists>res. out = Inr res) \<longrightarrow>
            (\<exists>courses. enrollments w token = Some courses \<and>
               progress_values tr = [1..<Suc (length courses)] \<and>
               length (progress_values tr) = length courses))"
proof (cases "token = []")
  case True
  with assms have "out = Inl NoToken" "tr = []"
    by (simp_all add: fetch_assignments_thread_def fetch_phase_def)
  then have "progress_values tr = [1..<Suc 0]" "\<not> (\<exists>res. out = Inr res)"
    by simp_all
  then show ?thesis
    by (intro conjI exI [of _ 0]) simp_all
next
  case False
  from assms obtain r tr0 where f: "fetch_phase w token = Some (r, tr0)"
    by (cases "fetch_phase w token") (auto simp: fetch_assignments_thread_def)
  from fetch_phase_progress [OF f False] obtain k where
    k: "progress_values tr0 = [1..<Suc k]"
      "\<forall>courses. enrollments w token = Some courses \<longrightarrow> k \<le> length courses"
      "(\<exists>xs. r = Inr xs) \<longrightarrow> enrollments w token \<noteq> None \<and>
        (\<forall>courses. enrollments w token = Some courses \<longrightarrow> k = length courses)"
    by (elim exE conjE)
  have pv: "progress_values tr = progress_values tr0" and
    success: "(\<exists>res. out = Inr res) \<longrightarrow> (\<exists>xs. r = Inr xs)"
  proof -
    show "progress_values tr = progress_values tr0"
    proof (cases r)
      case (Inl e)
      with assms f show ?thesis by (simp add: fetch_assignments_thread_def)
    next
      case (Inr xs)
      with assms f have "classify_and_group w xs tr0 = (out, tr)"
        by (simp add: fetch_assignments_thread_def)
      from classify_and_group_trace [OF this] obtain n where
        "tr = tr0 @ replicate (Suc n) ClockRead" by blast
      then show ?thesis
        by (simp only: progress_values_append progress_values_clock append_Nil2)
    qed
    show "(\<exists>res. out = Inr res) \<longrightarrow> (\<exists>xs. r = Inr xs)"
      using assms f by (cases r) (auto simp: fetch_assignments_thread_def)
  qed
  have 1: "\<exists>k. progress_values tr = [1..<Suc k] \<and>
              (\<forall>courses. enrollments w token = Some courses \<longrightarrow> k \<le> length courses)"
    using k(1,2) pv by (intro exI [of _ k]) simp
  have 2: "(\<exists>res. out = Inr res) \<longrightarrow>
            (\<exists>courses. enrollments w token = Some courses \<and>
               progress_values tr = [1..<Suc (length courses)] \<and>
               length (progress_values tr) = length courses)"
  proof
    assume "\<exists>res. out = Inr res"
    with success have "\<exists>xs. r = Inr xs" by blast
    with k(3) obtain courses where
      c: "enrollments w token = Some courses" "k = length courses"
      by blast
    from k(1) pv c(2) have p: "progress_values tr = [1..<Suc (length courses)]"
      by simp
    have "length [1..<Suc (length courses)] = length courses"
      by (simp del: upt_Suc)
    with p have "length (progress_values tr) = length courses"
      by simp
    with c(1) p show "\<exists>courses. enrollments w token = Some courses \<and>
               progress_values tr = [1..<Suc (length courses)] \<and>
               length (progress_values tr) = length courses"
      by blast
  qed
  from 1 2 show ?thesis by blast
qed


lemma sample_enrollments:
  "enrollments (sample_world essay_due_now) ''tok'' =
     Some [[(''id'', JInt 1), (''name'', JStr ''Calc'')], [(''id'', JInt 2)]]"
  by code_simp

theorem progress_once_per_enrollment_witness:
  "fetch_assignments_thread (sample_world essay_due_now) ''tok'' =
     Some (Inr sample_result, sample_trace)
   \<and> enrollments (sample_world essay_due_now) ''tok'' =
       Some [[(''id'', JInt 1), (''name'', JStr ''Calc'')], [(''id'', JInt 2)]]
   \<and> progress_values sample_trace = [1, 2]"
proof -
  from progress_once_per_enrollment [OF sample_run] obtain courses where
    c: "enrollments (sample_world essay_due_now) ''tok'' = Some courses"
      "progress_values sample_trace = [1..<Suc (length courses)]"
    by blast
  from c(1) sample_enrollments have
    "courses = [[(''id'', JInt 1), (''name'', JStr ''Calc'')], [(''id'', JInt 2)]]"
    by simp
  then have "length courses = 2"
    by simp
  with c(2) have "progress_values sample_trace = [1..<Suc 2]"
    by simp
  also have "[1..<Suc 2] = [1, 2]"
    by code_simp
  finally have "progress_values sample_trace = [1, 2]" .
  with sample_run sample_enrollments show ?thesis by blast
qed

section \<open>Refused requests\<close>








section \<open>The cutoff\<close>

lemma grouped_append_absent: "wd \<notin> set (map fst g) \<Longrightarrow> grouped_append g wd e = g"
  by (induction g) (auto simp: grouped_append_simps)

lemma entries_grouped_append_mset:
  "distinct (map fst g) \<Longrightarrow> wd \<in> set (map fst g) \<Longrightarrow>
   mset (entries (grouped_append g wd e)) = mset (entries g) + {#e#}"
proof (induction g)
  case Nil
  then show ?case by simp
next
  case (Cons p g)
  obtain day es where p: "p = (day, es)" by (cases p)
  show ?case
  proof (cases "day = wd")
    case True
    with Cons.prems p have "wd \<notin> set (map fst g)" by auto
    then have "grouped_append g wd e = g" by (rule grouped_append_absent)
    with True p show ?thesis by (simp add: entries_simps grouped_append_simps)
  next
    case False
    with Cons.prems p have "distinct (map fst g)" "wd \<in> set (map fst g)" by auto
    from Cons.IH [OF this] False p show ?thesis
      by (simp add: entries_simps grouped_append_simps)
  qed
qed

lemma weekday_name_tab: "weekday_name t \<in> set day_tabs"
proof -
  have "nat ((t div day_us + 3) mod 7) < length day_tabs"
    by (simp add: day_tabs_def)
  then show ?thesis
    unfolding weekday_name_def by (rule nth_mem)
qed

lemma distinct_day_tabs: "distinct day_tabs"
  by (simp add: day_tabs_def)

lemma group_loop_names:
  "group_loop fromiso tz clk k items g tr = (Inr g', tr') \<Longrightarrow> map fst g = day_tabs \<Longrightarrow>
   mset (map (\<lambda>e. (entry_course e, entry_assignment e)) (entries g')) =
     mset (map (\<lambda>e. (entry_course e, entry_assignment e)) (entries g)) +
     mset (map (\<lambda>a. (course_name a, assignment_name a)) items)"
proof (induction items arbitrary: k g tr)
  case Nil
  then show ?case by simp
next
  case (Cons item rest)
  from Cons.prems(1) obtain t off dl where
    p: "parse_due_date fromiso (due_at item) = Inr (Aware t off)"
    and a: "astimezone tz t = Inr dl"
    by (auto split: sum.splits pydatetime.splits)
  define new where "new = \<lparr>entry_course = course_name item, entry_assignment = assignment_name item,
        due_local = dl,
        days_remaining = timedelta_days (dl - (clk k + tz (clk k))),
        hours_remaining = max 0 (timedelta_seconds (dl - (clk k + tz (clk k))) div 3600)\<rparr>"
  define g1 where "g1 = grouped_append g (weekday_name dl) new"
  have step: "group_loop fromiso tz clk (Suc k) rest g1 (tr @ [ClockRead]) = (Inr g', tr')"
    using Cons.prems(1) p a by (simp add: new_def g1_def Let_def)
  have keys: "map fst g1 = day_tabs"
    using Cons.prems(2) by (simp add: g1_def keys_grouped_append)
  have "mset (entries g1) = mset (entries g) + {#new#}"
    unfolding g1_def
    using Cons.prems(2) distinct_day_tabs weekday_name_tab [of dl]
    by (intro entries_grouped_append_mset) simp_all
  then have "mset (map (\<lambda>e. (entry_course e, entry_assignment e)) (entries g1)) =
      mset (map (\<lambda>e. (entry_course e, entry_assignment e)) (entries g)) +
      {#(course_name item, assignment_name item)#}"
    by (simp add: new_def)
  with Cons.IH [OF step keys] show ?case by simp
qed

text \<open>
  C5. In a run that succeeds the clock is not read while anything is fetched; it is read
  first when the whole merged list is there, and that one reading \<open>now\<close> is the cutoff for
  every record: the tabs hold exactly the records whose due instant is at or after it, one
  entry each. The later readings, one per upcoming record, only serve the remaining time
  shown. The boundary is inclusive: a record due at \<open>now\<close> itself is upcoming and shown.
\<close>

theorem single_inclusive_cutoff:
  assumes "fetch_assignments_thread w token = Some (Inr res, tr)"
  shows "\<exists>xs tr0.
           fetch_phase w token = Some (Inr xs, tr0) \<and> ClockRead \<notin> set tr0
         \<and> tr = tr0 @ ClockRead #
                  replicate (length (filter (is_upcoming (fromisoformat w) (clock w 0)) xs)) ClockRead
         \<and> mset (map (\<lambda>e. (entry_course e, entry_assignment e)) (entries (grouped res))) =
             mset (map (\<lambda>a. (course_name a, assignment_name a))
                     (filter (is_upcoming (fromisoformat w) (clock w 0)) xs))
         \<and> (\<forall>a \<in> set xs. due_instant (fromisoformat w) a = Some (clock w 0) \<longrightarrow>
               is_upcoming (fromisoformat w) (clock w 0) a \<and> shown res a)"
proof -
  let ?fi = "fromisoformat w"
  let ?now = "clock w 0"
  from run_success [OF assms] obtain xs tr0 where
    f: "fetch_phase w token = Some (Inr xs, tr0)"
    and c: "classify_and_group w xs tr0 = (Inr res, tr)"
    by (elim exE conjE)
  from classify_and_group_success [OF c] obtain up s where
    u: "upcoming_filter ?fi (Aware ?now 0) xs = Inr up"
    and s: "sort_by_due ?fi up = Inr s"
    and g: "group_loop ?fi (local_zone w) (clock w) 1 s
             (map (\<lambda>day. (day, [])) day_tabs) (tr0 @ [ClockRead]) = (Inr (grouped res), tr)"
    by (elim exE conjE)
  have up: "up = filter (is_upcoming ?fi ?now) xs"
    using u by (rule upcoming_filter_aware(1))
  have aware: "\<forall>a \<in> set up. \<exists>t o'. parse_due_date ?fi (due_at a) = Inr (Aware t o')"
    using u by (rule upcoming_filter_aware(2))
  from sort_by_due_aware [OF aware] s have s_eq: "s = sort_key (due_key ?fi) up"
    by simp
  have ms: "mset s = mset up" and ls: "length s = length up"
    by (simp_all add: s_eq)
  have noclock: "ClockRead \<notin> set tr0"
    using f by (rule fetch_phase_no_clock)
  from group_loop_trace_success [OF g] have
    tr: "tr = tr0 @ ClockRead # replicate (length (filter (is_upcoming ?fi ?now) xs)) ClockRead"
    by (simp add: ls up)
  have keys: "map fst (map (\<lambda>day. (day, [])) day_tabs) = day_tabs"
    by (simp add: comp_def)
  have "mset (map (\<lambda>a. (course_name a, assignment_name a)) s) =
      mset (map (\<lambda>a. (course_name a, assignment_name a)) up)"
    using ms by simp
  with group_loop_names [OF g keys] have
    names: "mset (map (\<lambda>e. (entry_course e, entry_assignment e)) (entries (grouped res))) =
             mset (map (\<lambda>a. (course_name a, assignment_name a))
                     (filter (is_upcoming ?fi ?now) xs))"
    by (simp add: entries_empty_tabs up)
  have incl: "\<forall>a \<in> set xs. due_instant ?fi a = Some ?now \<longrightarrow>
               is_upcoming ?fi ?now a \<and> shown res a"
  proof (intro ballI impI)
    fix a
    assume a: "a \<in> set xs" and d: "due_instant ?fi a = Some ?now"
    from d have iu: "is_upcoming ?fi ?now a"
      by (simp add: is_upcoming_def)
    with a have "(course_name a, assignment_name a) \<in>
        set (map (\<lambda>a. (course_name a, assignment_name a)) (filter (is_upcoming ?fi ?now) xs))"
      by auto
    then have "(course_name a, assignment_name a) \<in>#
        mset (map (\<lambda>a. (course_name a, assignment_name a)) (filter (is_upcoming ?fi ?now) xs))"
      by (simp only: set_mset_mset)
    with names have "(course_name a, assignment_name a) \<in>#
        mset (map (\<lambda>e. (entry_course e, entry_assignment e)) (entries (grouped res)))"
      by simp
    then have "(course_name a, assignment_name a) \<in>
        set (map (\<lambda>e. (entry_course e, entry_assignment e)) (entries (grouped res)))"
      by (simp only: set_mset_mset)
    then have "shown res a"
      by (auto simp: shown_def list_ex_iff)
    with iu show "is_upcoming ?fi ?now a \<and> shown res a" by simp
  qed
  from f noclock tr names incl show ?thesis
    by (intro exI [of _ xs] exI [of _ tr0] conjI)
qed

lemma essay_and_old_run:
  "fetch_assignments_thread (sample_world essay_and_old) ''tok'' =
     Some (Inr sample_result, sample_trace)"
  by code_simp

lemma essay_and_old_fetch:
  "fetch_phase (sample_world essay_and_old) ''tok'' = Some (Inr sample_merged, fetch_trace)"
  by code_simp

theorem single_inclusive_cutoff_witness:
  "fetch_assignments_thread (sample_world essay_and_old) ''tok'' =
     Some (Inr sample_result, sample_trace)
   \<and> fetch_phase (sample_world essay_and_old) ''tok'' = Some (Inr sample_merged, fetch_trace)
   \<and> sample_trace = fetch_trace @ ClockRead # replicate 2 ClockRead
   \<and> due_instant fromisoformat_sample (sample_merged ! 2) =
       Some (clock (sample_world essay_and_old) 0)
   \<and> shown sample_result (sample_merged ! 2)
   \<and> is_past fromisoformat_sample (clock (sample_world essay_and_old) 0) (sample_merged ! 3)
   \<and> \<not> shown sample_result (sample_merged ! 3)"
proof -
  let ?w = "sample_world essay_and_old"
  from single_inclusive_cutoff [OF essay_and_old_run] obtain xs tr0 where
    f: "fetch_phase ?w ''tok'' = Some (Inr xs, tr0)"
    and tr: "sample_trace = tr0 @ ClockRead #
        replicate (length (filter (is_upcoming (fromisoformat ?w) (clock ?w 0)) xs)) ClockRead"
    and incl: "\<forall>a \<in> set xs. due_instant (fromisoformat ?w) a = Some (clock ?w 0) \<longrightarrow>
               is_upcoming (fromisoformat ?w) (clock ?w 0) a \<and> shown sample_result a"
    by (elim exE conjE)
  from f have xs: "xs = sample_merged" and tr0: "tr0 = fetch_trace"
    by (simp_all add: essay_and_old_fetch)
  have fi: "fromisoformat ?w = fromisoformat_sample"
    by (simp add: sample_world_def)
  have d: "due_instant fromisoformat_sample (sample_merged ! 2) = Some (clock ?w 0)"
    by (simp add: sample_merged_def due_instant_def fromisoformat_sample_def sample_world_def)
  have m: "sample_merged ! 2 \<in> set sample_merged"
    by (simp add: sample_merged_def)
  from incl m d have sh: "shown sample_result (sample_merged ! 2)"
    by (simp add: xs fi)
  have n: "length (filter (is_upcoming fromisoformat_sample (clock ?w 0)) sample_merged) = 2"
    by (simp add: sample_merged_def is_upcoming_def due_instant_def fromisoformat_sample_def
        sample_world_def)
  from tr have t: "sample_trace = fetch_trace @ ClockRead # replicate 2 ClockRead"
    by (simp only: xs tr0 fi n)
  have p: "is_past fromisoformat_sample (clock ?w 0) (sample_merged ! 3)"
    by (simp add: sample_merged_def is_past_def due_instant_def fromisoformat_sample_def
        sample_world_def)
  have ns: "\<not> shown sample_result (sample_merged ! 3)"
    by (simp add: shown_def sample_result_def sample_merged_def entries_def)
  from essay_and_old_run essay_and_old_fetch t d sh p ns show ?thesis
    by (intro conjI)
qed

end
